theory Spec2Isabelle
  imports Main "HOL-Library.Multiset" "HOL-Library.Sublist"
begin

section \<open>Go values used by the versioner\<close>

subsection \<open>Errors and their messages\<close>

text \<open>
  A Go \<^verbatim>\<open>error\<close> is a value with an \<^verbatim>\<open>Error()\<close> message.  \<^verbatim>\<open>fmt.Errorf\<close> with one
  \<^verbatim>\<open>%w\<close> verb builds a \<^verbatim>\<open>wrapError\<close>: the fully formatted message together with the
  wrapped error (what \<^verbatim>\<open>errors.Unwrap\<close> returns).  Every other error is a leaf with
  its message.  A \<^verbatim>\<open>nil\<close> error is \<open>None\<close> of \<open>error option\<close>.
\<close>

datatype error = errorString string | wrapError string error

fun err_Error :: "error \<Rightarrow> string" where
  "err_Error (errorString s) = s"
| "err_Error (wrapError msg err) = msg"

fun err_Unwrap :: "error \<Rightarrow> error option" where
  "err_Unwrap (errorString s) = None"
| "err_Unwrap (wrapError msg err) = Some err"

text \<open>The \<^verbatim>\<open>%d\<close> verb on a Go \<^verbatim>\<open>int\<close>: decimal digits, with a minus sign below zero.\<close>

definition digit_char :: "nat \<Rightarrow> char" where
  "digit_char n = ''0123456789'' ! n"

function utoa :: "nat \<Rightarrow> string" where
  "utoa n = (if n < 10 then [digit_char n] else utoa (n div 10) @ [digit_char (n mod 10)])"
  by pat_completeness auto
termination
  by (relation "measure (\<lambda>n. n)") auto

declare utoa.simps [simp del]

definition itoa :: "int \<Rightarrow> string" where
  "itoa i = (if i < 0 then ''-'' @ utoa (nat (- i)) else utoa (nat i))"

subsection \<open>Events\<close>

text \<open>\<^verbatim>\<open>type EventType string\<close> with its eight constants (version.go, lines 9-20).\<close>

datatype EventType =
    EventStart
  | EventEnd
  | EventBeforeSync
  | EventAfterSync
  | EventBeforeChange
  | EventAfterChange
  | EventErrorDuringChange
  | EventError

fun EventType_string :: "EventType \<Rightarrow> string" where
  "EventType_string EventStart = ''start''"
| "EventType_string EventEnd = ''end''"
| "EventType_string EventBeforeSync = ''before-sync''"
| "EventType_string EventAfterSync = ''after-sync''"
| "EventType_string EventBeforeChange = ''before-change''"
| "EventType_string EventAfterChange = ''after-change''"
| "EventType_string EventErrorDuringChange = ''error-during-change''"
| "EventType_string EventError = ''error''"

text \<open>
  \<^verbatim>\<open>type Event struct { Type EventType; Version Version; Error error }\<close>.  The code
  builds events positionally, \<^verbatim>\<open>Event{EventStart, nil, nil}\<close>; a \<^verbatim>\<open>nil\<close> interface
  value is \<open>None\<close>.  The type \<open>'v\<close> is the type of the objects implementing the
  \<^verbatim>\<open>Version\<close> interface.
\<close>

datatype 'v Event = Event (Type: EventType) (Version: "'v option") (Error: "error option")

subsection \<open>The collaborator interfaces\<close>

text \<open>
  The collaborators act on the outside world (a database, a log).  The world is a value
  of an arbitrary type \<open>'w\<close>; a method with side effects takes the world and returns its
  result together with the new world.

  \<^verbatim>\<open>Listener\<close>: one method \<^verbatim>\<open>On(event Event) error\<close>.
  \<^verbatim>\<open>Version\<close>: \<^verbatim>\<open>Number() int\<close>, \<^verbatim>\<open>Upgrade() error\<close>, \<^verbatim>\<open>Rollback() error\<close>, here as the
  method table of the objects of type \<open>'v\<close>.
  \<^verbatim>\<open>VersionApplier\<close>: \<^verbatim>\<open>CurrentVersion() (int, error)\<close>, \<^verbatim>\<open>SyncVersion(versionNb int) error\<close>.
  Version numbers are Go \<^verbatim>\<open>int\<close>s that the code only compares and prints, never adds
  to, so they are modelled as \<open>int\<close>.
\<close>

type_synonym ('v, 'w) Listener = "'v Event \<Rightarrow> 'w \<Rightarrow> error option \<times> 'w"

record ('v, 'w) Version =
  Number :: "'v \<Rightarrow> int"
  Upgrade :: "'v \<Rightarrow> 'w \<Rightarrow> error option \<times> 'w"
  Rollback :: "'v \<Rightarrow> 'w \<Rightarrow> error option \<times> 'w"

record 'w VersionApplier =
  CurrentVersion :: "'w \<Rightarrow> (int \<times> error option) \<times> 'w"
  SyncVersion :: "int \<Rightarrow> 'w \<Rightarrow> error option \<times> 'w"

text \<open>\<^verbatim>\<open>type Versioner struct { Applier; Versions []Version; Listener }\<close>.\<close>

record ('v, 'w) Versioner =
  Applier :: "'w VersionApplier"
  Versions :: "'v list"
  Listener :: "('v, 'w) Listener"

subsection \<open>The log of collaborator calls\<close>

text \<open>
  To state which calls a run makes and in which order, the model keeps a log beside
  the world: every call to a collaborator appends one entry, the call with what it
  returned.  The log is not read by the code; it only observes it.
\<close>

datatype 'v call =
    OnCall "'v Event" "error option"
  | CurrentVersionCall int "error option"
  | UpgradeCall 'v "error option"
  | RollbackCall 'v "error option"
  | SyncVersionCall int "error option"

type_synonym ('v, 'w) state = "'w \<times> 'v call list"

definition call_On :: "('v, 'w) Listener \<Rightarrow> 'v Event \<Rightarrow> ('v, 'w) state \<Rightarrow> error option \<times> ('v, 'w) state" where
  "call_On l event s =
     (case l event (fst s) of (err, w') \<Rightarrow> (err, (w', snd s @ [OnCall event err])))"

definition call_CurrentVersion :: "'w VersionApplier \<Rightarrow> ('v, 'w) state \<Rightarrow> (int \<times> error option) \<times> ('v, 'w) state" where
  "call_CurrentVersion a s =
     (case CurrentVersion a (fst s) of
        ((n, err), w') \<Rightarrow> ((n, err), (w', snd s @ [CurrentVersionCall n err])))"

definition call_SyncVersion :: "'w VersionApplier \<Rightarrow> int \<Rightarrow> ('v, 'w) state \<Rightarrow> error option \<times> ('v, 'w) state" where
  "call_SyncVersion a versionNb s =
     (case SyncVersion a versionNb (fst s) of
        (err, w') \<Rightarrow> (err, (w', snd s @ [SyncVersionCall versionNb err])))"

definition call_Upgrade :: "('v, 'w) Version \<Rightarrow> 'v \<Rightarrow> ('v, 'w) state \<Rightarrow> error option \<times> ('v, 'w) state" where
  "call_Upgrade V version s =
     (case Upgrade V version (fst s) of
        (err, w') \<Rightarrow> (err, (w', snd s @ [UpgradeCall version err])))"

definition call_Rollback :: "('v, 'w) Version \<Rightarrow> 'v \<Rightarrow> ('v, 'w) state \<Rightarrow> error option \<times> ('v, 'w) state" where
  "call_Rollback V version s =
     (case Rollback V version (fst s) of
        (err, w') \<Rightarrow> (err, (w', snd s @ [RollbackCall version err])))"

section \<open>The versioner (version.go)\<close>

subsection \<open>NewVersioner, CurrentVersion, LastVersion\<close>

definition NoOpListener_On :: "('v, 'w) Listener" where
  "NoOpListener_On event w = (None, w)"

definition NewVersioner :: "'w VersionApplier \<Rightarrow> 'v list \<Rightarrow> ('v, 'w) Versioner" where
  "NewVersioner applier vs = \<lparr>Applier = applier, Versions = vs, Listener = NoOpListener_On\<rparr>"

definition Versioner_CurrentVersion :: "('v, 'w) Versioner \<Rightarrow> ('v, 'w) state \<Rightarrow> (int \<times> error option) \<times> ('v, 'w) state" where
  "Versioner_CurrentVersion v s = call_CurrentVersion (Applier v) s"

text \<open>
  \<^verbatim>\<open>LastVersion\<close>: \<^verbatim>\<open>versionNb := 0\<close>, then the \<^verbatim>\<open>range\<close> loop over \<^verbatim>\<open>v.Versions\<close>;
  the loop is the recursion, \<open>versionNb\<close> its accumulator.
\<close>

fun LastVersion_loop :: "('v, 'w) Version \<Rightarrow> 'v list \<Rightarrow> int \<Rightarrow> int" where
  "LastVersion_loop V [] versionNb = versionNb"
| "LastVersion_loop V (version # rest) versionNb =
     (let number = Number V version
      in LastVersion_loop V rest (if number > versionNb then number else versionNb))"

definition LastVersion :: "('v, 'w) Version \<Rightarrow> ('v, 'w) Versioner \<Rightarrow> int" where
  "LastVersion V v = LastVersion_loop V (Versions v) 0"

subsection \<open>loadVersionsToApply\<close>

text \<open>
  The \<^verbatim>\<open>range\<close> loop of \<^verbatim>\<open>loadVersionsToApply\<close> with its accumulator \<open>toApply\<close>:
  an upgrade appends at the end, a rollback prepends at the front.
\<close>

fun loadVersionsToApply_loop :: "('v, 'w) Version \<Rightarrow> bool \<Rightarrow> int \<Rightarrow> int \<Rightarrow> 'v list \<Rightarrow> 'v list \<Rightarrow> 'v list" where
  "loadVersionsToApply_loop V upgrade currentVersion targetVersion [] toApply = toApply"
| "loadVersionsToApply_loop V upgrade currentVersion targetVersion (version # rest) toApply =
     loadVersionsToApply_loop V upgrade currentVersion targetVersion rest
       (if upgrade then
          (let isBetweenCurrentAndTargetVersions =
                 Number V version > currentVersion \<and> Number V version < targetVersion
           in if isBetweenCurrentAndTargetVersions then toApply @ [version] else toApply)
        else
          (let isBetweenCurrentAndTargetVersions =
                 Number V version < currentVersion \<and> Number V version > targetVersion
           in if isBetweenCurrentAndTargetVersions then [version] @ toApply else toApply))"

definition loadVersionsToApply :: "('v, 'w) Version \<Rightarrow> 'v list \<Rightarrow> bool \<Rightarrow> int \<Rightarrow> int \<Rightarrow> 'v list" where
  "loadVersionsToApply V versions upgrade currentVersion targetVersion =
     loadVersionsToApply_loop V upgrade currentVersion targetVersion versions []"

subsection \<open>Sync\<close>

text \<open>\<^verbatim>\<open>fmt.Errorf("event %s: %w", eventType, err)\<close>.\<close>

definition Errorf_event :: "EventType \<Rightarrow> error \<Rightarrow> error" where
  "Errorf_event eventType err =
     wrapError (''event '' @ EventType_string eventType @ '': '' @ err_Error err) err"

text \<open>
  The block that \<^verbatim>\<open>Sync\<close> repeats after a failed \<^verbatim>\<open>Upgrade\<close>, \<^verbatim>\<open>Rollback\<close> and
  \<^verbatim>\<open>SyncVersion\<close> (lines 132-135, 139-142, 146-149): report the error to the
  listener, then return
  \<^verbatim>\<open>fmt.Errorf("<what>%d (event error: %s): %w", version.Number(), eventErr.Error(), err)\<close>
  when the listener failed too, and
  \<^verbatim>\<open>fmt.Errorf("<what>%d: %w", version.Number(), err)\<close> otherwise, where \<open>what\<close> is
  \<^verbatim>\<open>"upgrade to version "\<close>, \<^verbatim>\<open>"rollback to version "\<close> or \<^verbatim>\<open>"sync version to "\<close>.
\<close>

definition change_error :: "string \<Rightarrow> int \<Rightarrow> error \<Rightarrow> error option \<Rightarrow> error" where
  "change_error what number err eventErr =
     (case eventErr of
        Some eventErr' \<Rightarrow>
          wrapError (what @ itoa number @ '' (event error: '' @ err_Error eventErr' @ ''): ''
                       @ err_Error err) err
      | None \<Rightarrow> wrapError (what @ itoa number @ '': '' @ err_Error err) err)"

definition change_failed ::
  "string \<Rightarrow> ('v, 'w) Version \<Rightarrow> ('v, 'w) Versioner \<Rightarrow> 'v \<Rightarrow> error \<Rightarrow> ('v, 'w) state \<Rightarrow> error option \<times> ('v, 'w) state" where
  "change_failed what V v version err s =
     (case call_On (Listener v) (Event EventErrorDuringChange (Some version) (Some err)) s of
        (eventErr, s') \<Rightarrow> (Some (change_error what (Number V version) err eventErr), s'))"

text \<open>
  One iteration of the \<^verbatim>\<open>for _, version := range versionsToApply\<close> loop (lines
  126-154).  The result \<open>Some err\<close> is a \<^verbatim>\<open>return err\<close> from inside the loop, \<open>None\<close>
  is reaching the end of the body.  \<open>persist_change\<close> is the part of the body after
  the action (lines 145-153).
\<close>

definition persist_change ::
  "('v, 'w) Version \<Rightarrow> ('v, 'w) Versioner \<Rightarrow> 'v \<Rightarrow> ('v, 'w) state \<Rightarrow> error option \<times> ('v, 'w) state" where
  "persist_change V v version s =
     (case call_SyncVersion (Applier v) (Number V version) s of
        (Some err, s1) \<Rightarrow> change_failed ''sync version to '' V v version err s1
      | (None, s1) \<Rightarrow>
          (case call_On (Listener v) (Event EventAfterChange (Some version) None) s1 of
             (Some err, s2) \<Rightarrow> (Some (Errorf_event EventAfterChange err), s2)
           | (None, s2) \<Rightarrow> (None, s2)))"

definition apply_version ::
  "('v, 'w) Version \<Rightarrow> ('v, 'w) Versioner \<Rightarrow> bool \<Rightarrow> 'v \<Rightarrow> ('v, 'w) state \<Rightarrow> error option \<times> ('v, 'w) state" where
  "apply_version V v upgrade version s =
     (case call_On (Listener v) (Event EventBeforeChange (Some version) None) s of
        (Some err, s1) \<Rightarrow> (Some (Errorf_event EventBeforeChange err), s1)
      | (None, s1) \<Rightarrow>
          (if upgrade then
             (case call_Upgrade V version s1 of
                (Some err, s2) \<Rightarrow> change_failed ''upgrade to version '' V v version err s2
              | (None, s2) \<Rightarrow> persist_change V v version s2)
           else
             (case call_Rollback V version s1 of
                (Some err, s2) \<Rightarrow> change_failed ''rollback to version '' V v version err s2
              | (None, s2) \<Rightarrow> persist_change V v version s2)))"

fun apply_versions ::
  "('v, 'w) Version \<Rightarrow> ('v, 'w) Versioner \<Rightarrow> bool \<Rightarrow> 'v list \<Rightarrow> ('v, 'w) state \<Rightarrow> error option \<times> ('v, 'w) state" where
  "apply_versions V v upgrade [] s = (None, s)"
| "apply_versions V v upgrade (version # rest) s =
     (case apply_version V v upgrade version s of
        (Some err, s') \<Rightarrow> (Some err, s')
      | (None, s') \<Rightarrow> apply_versions V v upgrade rest s')"

text \<open>
  \<^verbatim>\<open>Sync\<close>.  The first argument stands for the library function \<^verbatim>\<open>sort.Slice\<close>, which
  is not part of the repository: it is given the \<^verbatim>\<open>less\<close> function and the slice, and
  returns the slice's new contents.  In Go \<^verbatim>\<open>less\<close> takes two positions \<^verbatim>\<open>i\<close>, \<^verbatim>\<open>j\<close> and
  compares \<^verbatim>\<open>v.Versions[i].Number() < v.Versions[j].Number()\<close>; here it takes the two
  elements.  \<^verbatim>\<open>sort.Slice\<close> sorts in place and a Go slice shares its array with the
  caller's, so the versioner's \<^verbatim>\<open>Versions\<close> are reordered for the caller too: \<open>Sync\<close>
  returns them as the second component of its result.  The result is the returned
  error, the versions as the call leaves them, and the world with the log.  A run
  starts with an empty log.
\<close>

definition Sync ::
  "(('v \<Rightarrow> 'v \<Rightarrow> bool) \<Rightarrow> 'v list \<Rightarrow> 'v list) \<Rightarrow> ('v, 'w) Version \<Rightarrow> ('v, 'w) Versioner \<Rightarrow> int
     \<Rightarrow> ('v, 'w) state \<Rightarrow> error option \<times> 'v list \<times> ('v, 'w) state" where
  "Sync sort_Slice V v targetVersion s =
     (case call_On (Listener v) (Event EventStart None None) s of
        (Some err, s1) \<Rightarrow> (Some (Errorf_event EventStart err), Versions v, s1)
      | (None, s1) \<Rightarrow>
     (case Versioner_CurrentVersion v s1 of
        ((currentVersion, Some err), s2) \<Rightarrow>
          (case call_On (Listener v) (Event EventError None (Some err)) s2 of
             (Some eventErr, s3) \<Rightarrow>
               (Some (wrapError (''could not sync (event error: '' @ err_Error eventErr @ ''): ''
                                  @ err_Error err) err), Versions v, s3)
           | (None, s3) \<Rightarrow>
               (Some (wrapError (''could not sync: '' @ err_Error err) err), Versions v, s3))
      | ((currentVersion, None), s2) \<Rightarrow>
          (if currentVersion = targetVersion then
             (case call_On (Listener v) (Event EventEnd None None) s2 of
                (Some err, s3) \<Rightarrow> (Some (Errorf_event EventEnd err), Versions v, s3)
              | (None, s3) \<Rightarrow> (None, Versions v, s3))
           else
             (let sorted = sort_Slice (\<lambda>i j. Number V i < Number V j) (Versions v);
                  upgrade = (if targetVersion < currentVersion then False else True);
                  versionsToApply = loadVersionsToApply V sorted upgrade currentVersion targetVersion
              in
                (case call_On (Listener v) (Event EventBeforeSync None None) s2 of
                   (Some err, s3) \<Rightarrow> (Some (Errorf_event EventBeforeSync err), sorted, s3)
                 | (None, s3) \<Rightarrow>
                (case apply_versions V v upgrade versionsToApply s3 of
                   (Some err, s4) \<Rightarrow> (Some err, sorted, s4)
                 | (None, s4) \<Rightarrow>
                (case call_On (Listener v) (Event EventAfterSync None None) s4 of
                   (Some err, s5) \<Rightarrow> (Some (Errorf_event EventAfterSync err), sorted, s5)
                 | (None, s5) \<Rightarrow>
                (case call_On (Listener v) (Event EventEnd None None) s5 of
                   (Some err, s6) \<Rightarrow> (Some (Errorf_event EventEnd err), sorted, s6)
                 | (None, s6) \<Rightarrow> (None, sorted, s6)))))))))"

definition UpgradeToLast ::
  "(('v \<Rightarrow> 'v \<Rightarrow> bool) \<Rightarrow> 'v list \<Rightarrow> 'v list) \<Rightarrow> ('v, 'w) Version \<Rightarrow> ('v, 'w) Versioner
     \<Rightarrow> ('v, 'w) state \<Rightarrow> error option \<times> 'v list \<times> ('v, 'w) state" where
  "UpgradeToLast sort_Slice V v s = Sync sort_Slice V v (LastVersion V v) s"

text \<open>
  What \<^verbatim>\<open>sort.Slice\<close> promises for the \<^verbatim>\<open>less\<close> function that \<open>Sync\<close> passes: the
  slice afterwards holds the same elements, ordered by number.  It does not promise
  to keep elements with equal numbers in their original order.
\<close>

definition sort_Slice_sorts :: "(('v \<Rightarrow> 'v \<Rightarrow> bool) \<Rightarrow> 'v list \<Rightarrow> 'v list) \<Rightarrow> ('v, 'w) Version \<Rightarrow> bool" where
  "sort_Slice_sorts sort_Slice V \<longleftrightarrow>
     (\<forall>xs. mset (sort_Slice (\<lambda>i j. Number V i < Number V j) xs) = mset xs
          \<and> sorted (map (Number V) (sort_Slice (\<lambda>i j. Number V i < Number V j) xs)))"

text \<open>An insertion sort, as one function that \<open>Sync\<close> can be run with.\<close>

fun insert_by :: "('a \<Rightarrow> 'a \<Rightarrow> bool) \<Rightarrow> 'a \<Rightarrow> 'a list \<Rightarrow> 'a list" where
  "insert_by lt x [] = [x]"
| "insert_by lt x (y # ys) = (if lt y x then y # insert_by lt x ys else x # y # ys)"

fun insertionSort :: "('a \<Rightarrow> 'a \<Rightarrow> bool) \<Rightarrow> 'a list \<Rightarrow> 'a list" where
  "insertionSort lt [] = []"
| "insertionSort lt (x # xs) = insert_by lt x (insertionSort lt xs)"

subsection \<open>Collaborators for concrete runs\<close>

text \<open>
  A version applier that keeps the recorded number in memory (the world is that
  number), and versions given by their number and a tag: the scripts of a version
  tagged \<open>''bad''\<close> fail, all others succeed and change nothing.
\<close>

definition memApplier :: "int VersionApplier" where
  "memApplier = \<lparr>CurrentVersion = (\<lambda>w. ((w, None), w)), SyncVersion = (\<lambda>versionNb w. (None, versionNb))\<rparr>"

definition script :: "int \<times> string \<Rightarrow> int \<Rightarrow> error option \<times> int" where
  "script version w = (if snd version = ''bad'' then (Some (errorString ''boom''), w) else (None, w))"

definition taggedVersion :: "(int \<times> string, int) Version" where
  "taggedVersion = \<lparr>Number = fst, Upgrade = script, Rollback = script\<rparr>"

text \<open>
  Collaborators whose scripts change the structure: the world is the number on record
  together with the list of the versions applied to the structure.  The applier reads
  and sets the number; the upgrade of a version adds it to the list and its rollback
  takes it off, and the scripts of a version tagged \<open>''bad''\<close> fail and change nothing.
\<close>

definition structApplier :: "(int \<times> (int \<times> string) list) VersionApplier" where
  "structApplier = \<lparr>CurrentVersion = (\<lambda>w. ((fst w, None), w)),
                    SyncVersion = (\<lambda>versionNb w. (None, (versionNb, snd w)))\<rparr>"

definition structVersion :: "(int \<times> string, int \<times> (int \<times> string) list) Version" where
  "structVersion =
     \<lparr>Number = fst,
      Upgrade = (\<lambda>version w. if snd version = ''bad'' then (Some (errorString ''boom''), w)
                              else (None, (fst w, snd w @ [version]))),
      Rollback = (\<lambda>version w. if snd version = ''bad'' then (Some (errorString ''boom''), w)
                               else (None, (fst w, removeAll version (snd w))))\<rparr>"

text \<open>A listener that refuses the events of one type and accepts all others.\<close>

definition vetoListener :: "EventType \<Rightarrow> ('v, 'w) Listener" where
  "vetoListener t event w = (if Type event = t then (Some (errorString ''veto''), w) else (None, w))"

section \<open>The listeners (listeners.go)\<close>

subsection \<open>EventBroadcastListener\<close>

text \<open>
  \<^verbatim>\<open>type EventBroadcastListener struct { Listeners []Listener }\<close> and its method
  \<^verbatim>\<open>On\<close>: the \<^verbatim>\<open>range\<close> loop over the sub-listeners, returning the first error.
  Beside the world the loop keeps a log of the sub-listeners it invokes: the position
  in the sequence, the event passed, and what the sub-listener returned.
\<close>

record ('v, 'w) EventBroadcastListener =
  Listeners :: "('v, 'w) Listener list"

type_synonym 'v invocation = "nat \<times> 'v Event \<times> error option"

fun broadcast_loop ::
  "('v, 'w) Listener list \<Rightarrow> nat \<Rightarrow> 'v Event \<Rightarrow> 'w \<times> 'v invocation list
     \<Rightarrow> error option \<times> 'w \<times> 'v invocation list" where
  "broadcast_loop [] i event s = (None, s)"
| "broadcast_loop (listener # rest) i event s =
     (case listener event (fst s) of
        (Some err, w') \<Rightarrow> (Some err, (w', snd s @ [(i, event, Some err)]))
      | (None, w') \<Rightarrow> broadcast_loop rest (Suc i) event (w', snd s @ [(i, event, None)]))"

definition EventBroadcastListener_On_logged ::
  "('v, 'w) EventBroadcastListener \<Rightarrow> 'v Event \<Rightarrow> 'w \<Rightarrow> error option \<times> 'w \<times> 'v invocation list" where
  "EventBroadcastListener_On_logged l event w = broadcast_loop (Listeners l) 0 event (w, [])"

definition EventBroadcastListener_On :: "('v, 'w) EventBroadcastListener \<Rightarrow> ('v, 'w) Listener" where
  "EventBroadcastListener_On l event w =
     (case EventBroadcastListener_On_logged l event w of (err, w', invoked) \<Rightarrow> (err, w'))"

text \<open>
  Sub-listeners for concrete runs: the world is the list of the names of the
  listeners that have seen an event; a named listener adds its name to it, and
  refuses the events of one type with an error that carries its name.
\<close>

definition namedListener :: "string \<Rightarrow> EventType \<Rightarrow> ('v, string list) Listener" where
  "namedListener name refused event w =
     (if Type event = refused then (Some (errorString name), w @ [name]) else (None, w @ [name]))"

subsection \<open>TransactionalChangesListener\<close>

text \<open>
  The listener holds a \<^verbatim>\<open>*sql.DB\<close> and a \<^verbatim>\<open>*sql.Tx\<close>.  The package \<^verbatim>\<open>database/sql\<close>
  is not part of the repository: its three operations that the listener calls are
  the fields of \<open>sql_DB\<close>, acting on a database state of type \<open>'d\<close> with transaction
  handles of type \<open>'t\<close>.  A \<^verbatim>\<open>nil\<close> \<^verbatim>\<open>*sql.Tx\<close> is \<open>None\<close>; calling \<^verbatim>\<open>Commit\<close> or
  \<^verbatim>\<open>Rollback\<close> on it dereferences the nil pointer, which panics.
\<close>

record ('d, 't) sql_DB =
  Begin :: "'d \<Rightarrow> ('t option \<times> error option) \<times> 'd"
  Commit :: "'t \<Rightarrow> 'd \<Rightarrow> error option \<times> 'd"
  Tx_Rollback :: "'t \<Rightarrow> 'd \<Rightarrow> error option \<times> 'd"

record ('d, 't) TransactionalChangesListener =
  DB :: "('d, 't) sql_DB"
  currentTransaction :: "'t option"

datatype 'a outcome = Returns 'a | Panics

text \<open>
  The body of \<^verbatim>\<open>func (l TransactionalChangesListener) On(event Event) error\<close>, run on
  the receiver \<open>l\<close>.  It returns what the method returns, the receiver as the body
  leaves it, and the database.
\<close>

definition TransactionalChangesListener_On_body ::
  "('d, 't) TransactionalChangesListener \<Rightarrow> 'v Event \<Rightarrow> 'd
     \<Rightarrow> error option outcome \<times> ('d, 't) TransactionalChangesListener \<times> 'd" where
  "TransactionalChangesListener_On_body l event d =
     (case Type event of
        EventBeforeChange \<Rightarrow>
          (case Begin (DB l) d of
             ((tx, err), d') \<Rightarrow>
               (let l' = l\<lparr>currentTransaction := tx\<rparr>
                in (case err of Some e \<Rightarrow> (Returns (Some e), l', d') | None \<Rightarrow> (Returns None, l', d'))))
      | EventAfterChange \<Rightarrow>
          (case currentTransaction l of
             None \<Rightarrow> (Panics, l, d)
           | Some tx \<Rightarrow>
               (case Commit (DB l) tx d of
                  (err, d') \<Rightarrow>
                    (let l' = l\<lparr>currentTransaction := None\<rparr>
                     in (case err of Some e \<Rightarrow> (Returns (Some e), l', d') | None \<Rightarrow> (Returns None, l', d')))))
      | EventErrorDuringChange \<Rightarrow>
          (case currentTransaction l of
             None \<Rightarrow> (Panics, l, d)
           | Some tx \<Rightarrow>
               (case Tx_Rollback (DB l) tx d of
                  (err, d') \<Rightarrow>
                    (let l' = l\<lparr>currentTransaction := None\<rparr>
                     in (case err of Some e \<Rightarrow> (Returns (Some e), l', d') | None \<Rightarrow> (Returns None, l', d')))))
      | _ \<Rightarrow> (Returns None, l, d))"

text \<open>
  A call of the method.  \<^verbatim>\<open>On\<close> has a value receiver, so the body runs on a copy of
  the listener and the copy is dropped when the method returns: the listener that the
  caller holds is the second component of the result, and it is the one passed in.
\<close>

definition TransactionalChangesListener_On ::
  "('d, 't) TransactionalChangesListener \<Rightarrow> 'v Event \<Rightarrow> 'd
     \<Rightarrow> error option outcome \<times> ('d, 't) TransactionalChangesListener \<times> 'd" where
  "TransactionalChangesListener_On l event d =
     (case TransactionalChangesListener_On_body l event d of (r, l', d') \<Rightarrow> (r, l, d'))"

text \<open>
  A database for concrete runs: its state is the list of the operations done so far,
  \<^verbatim>\<open>Begin\<close> hands out the next free number as the transaction, and nothing fails.
\<close>

datatype db_op = Begun nat | Committed nat | RolledBack nat

definition logDB :: "(db_op list, nat) sql_DB" where
  "logDB = \<lparr>Begin = (\<lambda>d. ((Some (length d), None), d @ [Begun (length d)])),
            Commit = (\<lambda>tx d. (None, d @ [Committed tx])),
            Tx_Rollback = (\<lambda>tx d. (None, d @ [RolledBack tx]))\<rparr>"

section \<open>Notions used to state the properties\<close>

text \<open>
  The calls of one iteration of the apply loop that goes through: the before-change
  event, the action, the persisting of the number, the after-change event, all
  returning \<^verbatim>\<open>nil\<close>.
\<close>

definition action_call :: "bool \<Rightarrow> 'v \<Rightarrow> error option \<Rightarrow> 'v call" where
  "action_call upgrade version r = (if upgrade then UpgradeCall version r else RollbackCall version r)"

definition applied_calls :: "('v, 'w) Version \<Rightarrow> bool \<Rightarrow> 'v \<Rightarrow> 'v call list" where
  "applied_calls V upgrade version =
     [OnCall (Event EventBeforeChange (Some version) None) None,
      action_call upgrade version None,
      SyncVersionCall (Number V version) None,
      OnCall (Event EventAfterChange (Some version) None) None]"

text \<open>
  The calls of an iteration that returns an error, with that error: the listener
  refuses the before-change event; or the action fails; or persisting the number
  fails; or the listener refuses the after-change event.  After a failed action or a
  failed persisting the listener gets the error-during-change event, and what it
  returns there is \<open>eventErr\<close>.
\<close>

inductive failed_calls :: "('v, 'w) Version \<Rightarrow> bool \<Rightarrow> 'v \<Rightarrow> 'v call list \<Rightarrow> error \<Rightarrow> bool"
  for V :: "('v, 'w) Version" and upgrade :: bool and version :: 'v where
  before_change_refused:
    "failed_calls V upgrade version
       [OnCall (Event EventBeforeChange (Some version) None) (Some err)]
       (Errorf_event EventBeforeChange err)"
| action_failed:
    "failed_calls V upgrade version
       [OnCall (Event EventBeforeChange (Some version) None) None,
        action_call upgrade version (Some err),
        OnCall (Event EventErrorDuringChange (Some version) (Some err)) eventErr]
       (change_error (if upgrade then ''upgrade to version '' else ''rollback to version '')
          (Number V version) err eventErr)"
| persist_failed:
    "failed_calls V upgrade version
       [OnCall (Event EventBeforeChange (Some version) None) None,
        action_call upgrade version None,
        SyncVersionCall (Number V version) (Some err),
        OnCall (Event EventErrorDuringChange (Some version) (Some err)) eventErr]
       (change_error ''sync version to '' (Number V version) err eventErr)"
| after_change_refused:
    "failed_calls V upgrade version
       [OnCall (Event EventBeforeChange (Some version) None) None,
        action_call upgrade version None,
        SyncVersionCall (Number V version) None,
        OnCall (Event EventAfterChange (Some version) None) (Some err)]
       (Errorf_event EventAfterChange err)"

text \<open>
  The versions of a list whose number lies strictly between two bounds, in the order
  of the list.
\<close>

definition versions_between :: "('v, 'w) Version \<Rightarrow> int \<Rightarrow> int \<Rightarrow> 'v list \<Rightarrow> 'v list" where
  "versions_between V lo hi xs = filter (\<lambda>x. lo < Number V x \<and> Number V x < hi) xs"

text \<open>The calls that change the structure or its recorded version.\<close>

fun is_change :: "'v call \<Rightarrow> bool" where
  "is_change (UpgradeCall version r) = True"
| "is_change (RollbackCall version r) = True"
| "is_change (SyncVersionCall n r) = True"
| "is_change (OnCall event r) = False"
| "is_change (CurrentVersionCall n r) = False"

text \<open>
  The number an applier has on record after the calls of a log, when it had \<open>n\<close>
  before them and records the argument of each \<^verbatim>\<open>SyncVersion\<close> that returns \<^verbatim>\<open>nil\<close>.
\<close>

fun record_call :: "int \<Rightarrow> 'v call \<Rightarrow> int" where
  "record_call n (SyncVersionCall m None) = m"
| "record_call n c = n"

definition recorded_after :: "int \<Rightarrow> 'v call list \<Rightarrow> int" where
  "recorded_after n calls = foldl record_call n calls"

text \<open>
  Making the calls of a log again, in order, from a world: the result is the world
  they leave, provided that every call returns what the log says it returned.
\<close>

fun replay :: "('v, 'w) Version \<Rightarrow> ('v, 'w) Versioner \<Rightarrow> 'v call list \<Rightarrow> 'w \<Rightarrow> 'w option" where
  "replay V v [] w = Some w"
| "replay V v (OnCall event r # calls) w =
     (case Listener v event w of (r', w') \<Rightarrow> if r' = r then replay V v calls w' else None)"
| "replay V v (CurrentVersionCall n r # calls) w =
     (case CurrentVersion (Applier v) w of
        ((n', r'), w') \<Rightarrow> if n' = n \<and> r' = r then replay V v calls w' else None)"
| "replay V v (UpgradeCall version r # calls) w =
     (case Upgrade V version w of (r', w') \<Rightarrow> if r' = r then replay V v calls w' else None)"
| "replay V v (RollbackCall version r # calls) w =
     (case Rollback V version w of (r', w') \<Rightarrow> if r' = r then replay V v calls w' else None)"
| "replay V v (SyncVersionCall n r # calls) w =
     (case SyncVersion (Applier v) n w of (r', w') \<Rightarrow> if r' = r then replay V v calls w' else None)"

text \<open>
  Reading a number back from a message: the decimal value of a string of digits, the
  integer written by an optional minus sign and digits, and the integer that a
  message starts with.
\<close>

definition is_digit :: "char \<Rightarrow> bool" where
  "is_digit c \<longleftrightarrow> c \<in> set ''0123456789''"

definition digit_value :: "char \<Rightarrow> nat" where
  "digit_value c = of_char c - 48"

definition decimal :: "string \<Rightarrow> nat" where
  "decimal s = foldl (\<lambda>a c. 10 * a + digit_value c) 0 s"

definition atoi :: "string \<Rightarrow> int" where
  "atoi s = (case s of [] \<Rightarrow> 0
             | c # ds \<Rightarrow> if c = CHR ''-'' then - int (decimal ds) else int (decimal (c # ds)))"

definition read_number :: "string \<Rightarrow> int" where
  "read_number s = atoi (takeWhile (\<lambda>c. c = CHR ''-'' \<or> is_digit c) s)"

text \<open>
  Collaborators that keep a record: \<open>rd\<close> reads the recorded number off the world;
  \<^verbatim>\<open>CurrentVersion\<close> reports it and changes nothing, a \<^verbatim>\<open>SyncVersion\<close> that returns
  \<^verbatim>\<open>nil\<close> sets it to its argument and one that fails leaves it, and neither the
  scripts nor the listener touch it.
\<close>

definition keeps_record :: "('w \<Rightarrow> int) \<Rightarrow> ('v, 'w) Version \<Rightarrow> ('v, 'w) Versioner \<Rightarrow> bool" where
  "keeps_record rd V v \<longleftrightarrow>
     (\<forall>w. CurrentVersion (Applier v) w = ((rd w, None), w))
   \<and> (\<forall>n w. rd (snd (SyncVersion (Applier v) n w))
              = (if fst (SyncVersion (Applier v) n w) = None then n else rd w))
   \<and> (\<forall>x w. rd (snd (Upgrade V x w)) = rd w)
   \<and> (\<forall>x w. rd (snd (Rollback V x w)) = rd w)
   \<and> (\<forall>event w. rd (snd (Listener v event w)) = rd w)"

section \<open>Verified properties\<close>

subsection \<open>LastVersion\<close>

lemma Max_insert_max:
  "finite S \<Longrightarrow> Max (insert (max a b) S) = Max (insert a (insert b S))"
  for a b :: int
  by (cases "S = {}") (simp_all add: max.assoc)

lemma LastVersion_loop_Max:
  "LastVersion_loop V vs acc = Max (insert acc (Number V ` set vs))"
proof (induction vs arbitrary: acc)
  case Nil
  then show ?case by simp
next
  case (Cons x xs)
  have "(if Number V x > acc then Number V x else acc) = max acc (Number V x)"
    by (simp add: max_def)
  then have "LastVersion_loop V (x # xs) acc = Max (insert (max acc (Number V x)) (Number V ` set xs))"
    using Cons.IH by (simp add: Let_def)
  also have "\<dots> = Max (insert acc (insert (Number V x) (Number V ` set xs)))"
    by (rule Max_insert_max) simp
  finally show ?case by simp
qed

lemma LastVersion_Max: "LastVersion V v = Max (insert 0 (Number V ` set (Versions v)))"
  by (simp add: LastVersion_def LastVersion_loop_Max)

text \<open>
  Claim C5.  \<^verbatim>\<open>LastVersion()\<close> over an empty collection returns 0.  Over a non-empty
  collection whose numbers start at 0, as the \<^verbatim>\<open>Version\<close> interface asks of
  \<^verbatim>\<open>Number()\<close>, it returns the maximum number present.  The result depends on the held
  versions only, not on their order.  In general the result is the greatest of 0 and
  the numbers present: the maximum present as soon as one held number is not
  negative, and 0 when no held number is positive.
\<close>

theorem LastVersion_max_or_zero:
  "(Versions v = [] \<longrightarrow> LastVersion V v = 0)
   \<and> (Versions v \<noteq> [] \<and> (\<forall>x \<in> set (Versions v). 0 \<le> Number V x)
        \<longrightarrow> LastVersion V v = Max (Number V ` set (Versions v)))
   \<and> (mset (Versions v') = mset (Versions v) \<longrightarrow> LastVersion V v' = LastVersion V v)
   \<and> LastVersion V v = Max (insert 0 (Number V ` set (Versions v)))
   \<and> ((\<exists>x \<in> set (Versions v). 0 \<le> Number V x) \<longrightarrow> LastVersion V v = Max (Number V ` set (Versions v)))
   \<and> ((\<forall>x \<in> set (Versions v). Number V x \<le> 0) \<longrightarrow> LastVersion V v = 0)"
proof -
  have some: "LastVersion V v = Max (Number V ` set (Versions v))"
    if "\<exists>x \<in> set (Versions v). 0 \<le> Number V x"
  proof -
    from that obtain x where x: "x \<in> set (Versions v)" "0 \<le> Number V x" by blast
    let ?S = "Number V ` set (Versions v)"
    have ne: "?S \<noteq> {}" and fin: "finite ?S" using x by auto
    have "Number V x \<le> Max ?S" using x fin by simp
    then have "0 \<le> Max ?S" using x by linarith
    then show ?thesis using ne fin by (simp add: LastVersion_Max)
  qed
  have empty: "LastVersion V v = 0" if "Versions v = []"
    using that by (simp add: LastVersion_Max)
  have contract: "LastVersion V v = Max (Number V ` set (Versions v))"
    if "Versions v \<noteq> [] \<and> (\<forall>x \<in> set (Versions v). 0 \<le> Number V x)"
  proof -
    from that obtain x where "x \<in> set (Versions v)" by (cases "Versions v") auto
    with that have "\<exists>x \<in> set (Versions v). 0 \<le> Number V x" by blast
    then show ?thesis by (rule some)
  qed
  have order: "LastVersion V v' = LastVersion V v" if "mset (Versions v') = mset (Versions v)"
  proof -
    from that have "set (Versions v') = set (Versions v)" by (rule mset_eq_setD)
    then show ?thesis by (simp add: LastVersion_Max)
  qed
  have none: "LastVersion V v = 0" if "\<forall>x \<in> set (Versions v). Number V x \<le> 0"
  proof -
    have "Max (insert 0 (Number V ` set (Versions v))) \<le> 0"
      using that by (subst Max_le_iff) auto
    moreover have "0 \<le> Max (insert 0 (Number V ` set (Versions v)))"
      by (rule Max_ge) auto
    ultimately have "Max (insert 0 (Number V ` set (Versions v))) = 0"
      by (rule order.antisym)
    then show ?thesis unfolding LastVersion_Max .
  qed
  from empty contract order LastVersion_Max [of V v] some none show ?thesis by blast
qed

text \<open>
  The theorem at the versions 3, 7, 5 and at a reordering of them, where it gives 7,
  at the empty collection and at the versions -2, -4, where it gives 0.
\<close>

theorem LastVersion_max_or_zero_witness:
  "Versions (NewVersioner memApplier [(3, ''a''), (7, ''b''), (5, ''c'')]) \<noteq> []
   \<and> 0 \<le> Number taggedVersion (3, ''a'') \<and> 0 \<le> Number taggedVersion (7, ''b'')
   \<and> 0 \<le> Number taggedVersion (5, ''c'')
   \<and> LastVersion taggedVersion (NewVersioner memApplier [(3, ''a''), (7, ''b''), (5, ''c'')]) = 7
   \<and> Max (Number taggedVersion ` set (Versions (NewVersioner memApplier [(3, ''a''), (7, ''b''), (5, ''c'')]))) = 7
   \<and> LastVersion taggedVersion (NewVersioner memApplier [(5, ''c''), (3, ''a''), (7, ''b'')]) = 7
   \<and> mset (Versions (NewVersioner memApplier [(5, ''c''), (3, ''a''), (7, ''b'')]))
       = mset (Versions (NewVersioner memApplier [(3, ''a''), (7, ''b''), (5, ''c'')]))
   \<and> LastVersion taggedVersion (NewVersioner memApplier []) = 0
   \<and> LastVersion taggedVersion (NewVersioner memApplier [(- 2, ''a''), (- 4, ''b'')]) = 0"
  using LastVersion_max_or_zero [of "NewVersioner memApplier [(3, ''a''), (7, ''b''), (5, ''c'')]"
      taggedVersion "NewVersioner memApplier [(5, ''c''), (3, ''a''), (7, ''b'')]"]
    LastVersion_max_or_zero [of "NewVersioner memApplier []" taggedVersion]
    LastVersion_max_or_zero [of "NewVersioner memApplier [(- 2, ''a''), (- 4, ''b'')]" taggedVersion]
  by (simp add: NewVersioner_def taggedVersion_def)

subsection \<open>Selection and sorting\<close>

lemma loadVersionsToApply_loop_upgrade:
  "loadVersionsToApply_loop V True c t xs acc = acc @ filter (\<lambda>x. c < Number V x \<and> Number V x < t) xs"
  by (induction xs arbitrary: acc) simp_all

lemma loadVersionsToApply_loop_rollback:
  "loadVersionsToApply_loop V False c t xs acc = rev (filter (\<lambda>x. Number V x < c \<and> t < Number V x) xs) @ acc"
  by (induction xs arbitrary: acc) simp_all

lemma loadVersionsToApply_upgrade:
  "loadVersionsToApply V xs True c t = filter (\<lambda>x. c < Number V x \<and> Number V x < t) xs"
  by (simp add: loadVersionsToApply_def loadVersionsToApply_loop_upgrade)

lemma loadVersionsToApply_rollback:
  "loadVersionsToApply V xs False c t = rev (filter (\<lambda>x. Number V x < c \<and> t < Number V x) xs)"
  by (simp add: loadVersionsToApply_def loadVersionsToApply_loop_rollback)

lemma mset_insert_by: "mset (insert_by lt x xs) = add_mset x (mset xs)"
  by (induction xs) simp_all

lemma mset_insertionSort: "mset (insertionSort lt xs) = mset xs"
  by (induction xs) (simp_all add: mset_insert_by)

lemma set_insert_by: "set (insert_by lt x xs) = insert x (set xs)"
  by (induction xs) auto

lemma sorted_insert_by:
  "sorted (map f xs) \<Longrightarrow> sorted (map f (insert_by (\<lambda>i j. f i < f j) x xs))"
  for f :: "'a \<Rightarrow> int"
  by (induction xs) (auto simp: set_insert_by)

lemma sorted_insertionSort: "sorted (map f (insertionSort (\<lambda>i j. f i < f j) xs))"
  for f :: "'a \<Rightarrow> int"
  by (induction xs) (simp_all add: sorted_insert_by)

lemma insertionSort_sorts: "sort_Slice_sorts insertionSort V"
  by (simp add: sort_Slice_sorts_def mset_insertionSort sorted_insertionSort)

subsection \<open>The calls of a run of Sync\<close>

lemma change_failed_calls:
  assumes "change_failed what V v x err s = (r, s')"
  shows "\<exists>eventErr. r = Some (change_error what (Number V x) err eventErr)
           \<and> snd s' = snd s @ [OnCall (Event EventErrorDuringChange (Some x) (Some err)) eventErr]"
  using assms by (auto simp: change_failed_def call_On_def split: prod.splits)

lemma persist_change_calls:
  assumes "persist_change V v x s = (r, s')"
  shows "(r = None \<and> snd s' = snd s @ [SyncVersionCall (Number V x) None,
                                         OnCall (Event EventAfterChange (Some x) None) None])
       \<or> (\<exists>err eventErr. r = Some (change_error ''sync version to '' (Number V x) err eventErr)
             \<and> snd s' = snd s @ [SyncVersionCall (Number V x) (Some err),
                                  OnCall (Event EventErrorDuringChange (Some x) (Some err)) eventErr])
       \<or> (\<exists>err. r = Some (Errorf_event EventAfterChange err)
             \<and> snd s' = snd s @ [SyncVersionCall (Number V x) None,
                                  OnCall (Event EventAfterChange (Some x) None) (Some err)])"
  using assms
  by (auto simp: persist_change_def call_SyncVersion_def call_On_def
           split: prod.splits option.splits dest!: change_failed_calls)

lemma apply_version_calls:
  assumes "apply_version V v upgrade x s = (r, s')"
  shows "(r = None \<and> snd s' = snd s @ applied_calls V upgrade x)
       \<or> (\<exists>err tail. r = Some err \<and> snd s' = snd s @ tail \<and> failed_calls V upgrade x tail err)"
proof -
  let ?before = "OnCall (Event EventBeforeChange (Some x) None)"
  obtain r1 s1 where on: "call_On (Listener v) (Event EventBeforeChange (Some x) None) s = (r1, s1)"
    by (cases "call_On (Listener v) (Event EventBeforeChange (Some x) None) s")
  then have tr1: "snd s1 = snd s @ [?before r1]"
    by (auto simp: call_On_def split: prod.splits)
  show ?thesis
  proof (cases r1)
    case (Some err)
    then have "r = Some (Errorf_event EventBeforeChange err)" "s' = s1"
      using assms on by (simp_all add: apply_version_def)
    then show ?thesis
      using tr1 Some failed_calls.before_change_refused [of V upgrade x err] by auto
  next
    case None
    obtain r2 s2 where act: "(if upgrade then call_Upgrade V x s1 else call_Rollback V x s1) = (r2, s2)"
      by (cases "if upgrade then call_Upgrade V x s1 else call_Rollback V x s1")
    then have tr2: "snd s2 = snd s1 @ [action_call upgrade x r2]"
      by (auto simp: call_Upgrade_def call_Rollback_def action_call_def split: prod.splits if_splits)
    show ?thesis
    proof (cases r2)
      case (Some err)
      then have "change_failed (if upgrade then ''upgrade to version '' else ''rollback to version '') V v x err s2 = (r, s')"
        using assms on None act by (auto simp: apply_version_def split: if_splits)
      from change_failed_calls [OF this] obtain eventErr where
        "r = Some (change_error (if upgrade then ''upgrade to version '' else ''rollback to version '') (Number V x) err eventErr)"
        "snd s' = snd s2 @ [OnCall (Event EventErrorDuringChange (Some x) (Some err)) eventErr]"
        by blast
      then show ?thesis
        using tr1 tr2 None Some failed_calls.action_failed [of V upgrade x err eventErr] by auto
    next
      case None2: None
      then have "persist_change V v x s2 = (r, s')"
        using assms on None act by (auto simp: apply_version_def split: if_splits)
      from persist_change_calls [OF this] show ?thesis
        using tr1 tr2 None None2 failed_calls.persist_failed [of V upgrade x]
          failed_calls.after_change_refused [of V upgrade x]
        by (auto simp: applied_calls_def)
    qed
  qed
qed

lemma apply_versions_calls:
  assumes "apply_versions V v upgrade xs s = (r, s')"
  shows "(r = None \<and> snd s' = snd s @ concat (map (applied_calls V upgrade) xs))
       \<or> (\<exists>err pre x post tail. r = Some err \<and> xs = pre @ x # post
             \<and> snd s' = snd s @ concat (map (applied_calls V upgrade) pre) @ tail
             \<and> failed_calls V upgrade x tail err)"
  using assms
proof (induction xs arbitrary: s)
  case Nil
  then show ?case by simp
next
  case (Cons a xs)
  obtain r1 s1 where one: "apply_version V v upgrade a s = (r1, s1)"
    by (cases "apply_version V v upgrade a s")
  show ?case
  proof (cases r1)
    case (Some err)
    then have "r = Some err" "s' = s1" using Cons.prems one by simp_all
    moreover from apply_version_calls [OF one] Some obtain tail where
      "snd s1 = snd s @ tail" "failed_calls V upgrade a tail err" by auto
    ultimately have "r = Some err \<and> a # xs = [] @ a # xs
        \<and> snd s' = snd s @ concat (map (applied_calls V upgrade) []) @ tail
        \<and> failed_calls V upgrade a tail err" by simp
    then show ?thesis by blast
  next
    case None
    then have rest: "apply_versions V v upgrade xs s1 = (r, s')" using Cons.prems one by simp
    from apply_version_calls [OF one] None have tr1: "snd s1 = snd s @ applied_calls V upgrade a"
      by auto
    from Cons.IH [OF rest] show ?thesis
    proof
      assume "r = None \<and> snd s' = snd s1 @ concat (map (applied_calls V upgrade) xs)"
      then show ?thesis using tr1 by simp
    next
      assume "\<exists>err pre x post tail. r = Some err \<and> xs = pre @ x # post
             \<and> snd s' = snd s1 @ concat (map (applied_calls V upgrade) pre) @ tail
             \<and> failed_calls V upgrade x tail err"
      then obtain err pre x post tail where *: "r = Some err" "xs = pre @ x # post"
        "snd s' = snd s1 @ concat (map (applied_calls V upgrade) pre) @ tail"
        "failed_calls V upgrade x tail err" by blast
      then have "r = Some err \<and> a # xs = (a # pre) @ x # post
        \<and> snd s' = snd s @ concat (map (applied_calls V upgrade) (a # pre)) @ tail
        \<and> failed_calls V upgrade x tail err" using tr1 by simp
      then show ?thesis by blast
    qed
  qed
qed


lemma call_On_calls:
  "call_On l event s = (r, s') \<Longrightarrow> l event (fst s) = (r, fst s') \<and> snd s' = snd s @ [OnCall event r]"
  by (auto simp: call_On_def split: prod.splits)

lemma Sync_cases [consumes 1, case_names start_refused read_failed up_to_date
    before_sync_refused change_failed after_sync_refused completed]:
  assumes run: "Sync sort_Slice V v target (w, []) = (r, vs', s')"
  obtains
    (start_refused) err where
      "snd s' = [OnCall (Event EventStart None None) (Some err)]"
      "r = Some (Errorf_event EventStart err)"
      "vs' = Versions v"
  | (read_failed) w1 cur err eventErr where
      "Listener v (Event EventStart None None) w = (None, w1)"
      "fst (CurrentVersion (Applier v) w1) = (cur, Some err)"
      "snd s' = [OnCall (Event EventStart None None) None, CurrentVersionCall cur (Some err),
                 OnCall (Event EventError None (Some err)) eventErr]"
      "r = Some (case eventErr of
                   Some eventErr' \<Rightarrow>
                     wrapError (''could not sync (event error: '' @ err_Error eventErr' @ ''): ''
                                  @ err_Error err) err
                 | None \<Rightarrow> wrapError (''could not sync: '' @ err_Error err) err)"
      "vs' = Versions v"
  | (up_to_date) w1 eventErr where
      "Listener v (Event EventStart None None) w = (None, w1)"
      "fst (CurrentVersion (Applier v) w1) = (target, None)"
      "snd s' = [OnCall (Event EventStart None None) None, CurrentVersionCall target None,
                 OnCall (Event EventEnd None None) eventErr]"
      "r = map_option (Errorf_event EventEnd) eventErr"
      "vs' = Versions v"
  | (before_sync_refused) w1 cur err where
      "Listener v (Event EventStart None None) w = (None, w1)"
      "fst (CurrentVersion (Applier v) w1) = (cur, None)"
      "cur \<noteq> target"
      "snd s' = [OnCall (Event EventStart None None) None, CurrentVersionCall cur None,
                 OnCall (Event EventBeforeSync None None) (Some err)]"
      "r = Some (Errorf_event EventBeforeSync err)"
      "vs' = sort_Slice (\<lambda>i j. Number V i < Number V j) (Versions v)"
  | (change_failed) w1 cur pre x post tail err where
      "Listener v (Event EventStart None None) w = (None, w1)"
      "fst (CurrentVersion (Applier v) w1) = (cur, None)"
      "cur \<noteq> target"
      "loadVersionsToApply V (sort_Slice (\<lambda>i j. Number V i < Number V j) (Versions v))
         (\<not> target < cur) cur target = pre @ x # post"
      "snd s' = [OnCall (Event EventStart None None) None, CurrentVersionCall cur None,
                 OnCall (Event EventBeforeSync None None) None]
                @ concat (map (applied_calls V (\<not> target < cur)) pre) @ tail"
      "failed_calls V (\<not> target < cur) x tail err"
      "r = Some err"
      "vs' = sort_Slice (\<lambda>i j. Number V i < Number V j) (Versions v)"
  | (after_sync_refused) w1 cur err where
      "Listener v (Event EventStart None None) w = (None, w1)"
      "fst (CurrentVersion (Applier v) w1) = (cur, None)"
      "cur \<noteq> target"
      "snd s' = [OnCall (Event EventStart None None) None, CurrentVersionCall cur None,
                 OnCall (Event EventBeforeSync None None) None]
                @ concat (map (applied_calls V (\<not> target < cur))
                    (loadVersionsToApply V (sort_Slice (\<lambda>i j. Number V i < Number V j) (Versions v))
                       (\<not> target < cur) cur target))
                @ [OnCall (Event EventAfterSync None None) (Some err)]"
      "r = Some (Errorf_event EventAfterSync err)"
      "vs' = sort_Slice (\<lambda>i j. Number V i < Number V j) (Versions v)"
  | (completed) w1 cur eventErr where
      "Listener v (Event EventStart None None) w = (None, w1)"
      "fst (CurrentVersion (Applier v) w1) = (cur, None)"
      "cur \<noteq> target"
      "snd s' = [OnCall (Event EventStart None None) None, CurrentVersionCall cur None,
                 OnCall (Event EventBeforeSync None None) None]
                @ concat (map (applied_calls V (\<not> target < cur))
                    (loadVersionsToApply V (sort_Slice (\<lambda>i j. Number V i < Number V j) (Versions v))
                       (\<not> target < cur) cur target))
                @ [OnCall (Event EventAfterSync None None) None,
                   OnCall (Event EventEnd None None) eventErr]"
      "r = map_option (Errorf_event EventEnd) eventErr"
      "vs' = sort_Slice (\<lambda>i j. Number V i < Number V j) (Versions v)"
proof -
  let ?sorted = "sort_Slice (\<lambda>i j. Number V i < Number V j) (Versions v)"
  obtain r1 s1 where c1: "call_On (Listener v) (Event EventStart None None) (w, []) = (r1, s1)"
    by (cases "call_On (Listener v) (Event EventStart None None) (w, [])")
  from call_On_calls [OF c1] have w1: "Listener v (Event EventStart None None) w = (r1, fst s1)"
    and t1: "snd s1 = [OnCall (Event EventStart None None) r1]" by simp_all
  show thesis
  proof (cases r1)
    case (Some err)
    then have "r = Some (Errorf_event EventStart err)" "vs' = Versions v" "s' = s1"
      using run c1 by (simp_all add: Sync_def)
    then show thesis using t1 Some by (intro start_refused) simp_all
  next
    case None
    obtain cur r2 s2 where c2: "Versioner_CurrentVersion v s1 = ((cur, r2), s2)"
      by (cases "Versioner_CurrentVersion v s1") auto
    then have w2: "fst (CurrentVersion (Applier v) (fst s1)) = (cur, r2)"
      and t2: "snd s2 = snd s1 @ [CurrentVersionCall cur r2]"
      by (auto simp: Versioner_CurrentVersion_def call_CurrentVersion_def split: prod.splits)
    show thesis
    proof (cases r2)
      case (Some err)
      obtain r3 s3 where c3: "call_On (Listener v) (Event EventError None (Some err)) s2 = (r3, s3)"
        by (cases "call_On (Listener v) (Event EventError None (Some err)) s2")
      from call_On_calls [OF c3] have t3: "snd s3 = snd s2 @ [OnCall (Event EventError None (Some err)) r3]"
        by simp
      have "r = Some (case r3 of
                   Some eventErr' \<Rightarrow>
                     wrapError (''could not sync (event error: '' @ err_Error eventErr' @ ''): ''
                                  @ err_Error err) err
                 | None \<Rightarrow> wrapError (''could not sync: '' @ err_Error err) err)"
        "vs' = Versions v" "s' = s3"
        using run c1 None c2 Some c3 by (simp_all add: Sync_def split: option.splits)
      then show thesis using w1 w2 t1 t2 t3 None Some by (intro read_failed) simp_all
    next
      case None2: None
      show thesis
      proof (cases "cur = target")
        case True
        obtain r3 s3 where c3: "call_On (Listener v) (Event EventEnd None None) s2 = (r3, s3)"
          by (cases "call_On (Listener v) (Event EventEnd None None) s2")
        from call_On_calls [OF c3] have t3: "snd s3 = snd s2 @ [OnCall (Event EventEnd None None) r3]"
          by simp
        have "r = map_option (Errorf_event EventEnd) r3" "vs' = Versions v" "s' = s3"
          using run c1 None c2 None2 True c3 by (simp_all add: Sync_def split: option.splits)
        then show thesis using w1 w2 t1 t2 t3 None None2 True by (intro up_to_date) simp_all
      next
        case False
        let ?up = "\<not> target < cur"
        let ?sel = "loadVersionsToApply V ?sorted ?up cur target"
        have up: "(if target < cur then False else True) = ?up" by simp
        obtain r3 s3 where c3: "call_On (Listener v) (Event EventBeforeSync None None) s2 = (r3, s3)"
          by (cases "call_On (Listener v) (Event EventBeforeSync None None) s2")
        from call_On_calls [OF c3] have t3: "snd s3 = snd s2 @ [OnCall (Event EventBeforeSync None None) r3]"
          by simp
        show thesis
        proof (cases r3)
          case (Some err)
          have "r = Some (Errorf_event EventBeforeSync err)" "vs' = ?sorted" "s' = s3"
            using run c1 None c2 None2 False c3 Some by (simp_all add: Sync_def Let_def)
          then show thesis using w1 w2 t1 t2 t3 None None2 False Some
            by (intro before_sync_refused) simp_all
        next
          case None3: None
          obtain r4 s4 where c4: "apply_versions V v ?up ?sel s3 = (r4, s4)"
            by (cases "apply_versions V v ?up ?sel s3")
          show thesis
          proof (cases r4)
            case (Some err)
            have res: "r = Some err" "vs' = ?sorted" "s' = s4"
              using run c1 None c2 None2 False c3 None3 c4 Some by (simp_all add: Sync_def Let_def up)
            from apply_versions_calls [OF c4] Some obtain pre x post tail where
              "?sel = pre @ x # post"
              "snd s4 = snd s3 @ concat (map (applied_calls V ?up) pre) @ tail"
              "failed_calls V ?up x tail err" by auto
            then show thesis using res w1 w2 t1 t2 t3 None None2 None3 False
              by (intro change_failed [of "fst s1" cur pre x post tail err]) simp_all
          next
            case None4: None
            from apply_versions_calls [OF c4] None4 have
              t4: "snd s4 = snd s3 @ concat (map (applied_calls V ?up) ?sel)" by auto
            obtain r5 s5 where c5: "call_On (Listener v) (Event EventAfterSync None None) s4 = (r5, s5)"
              by (cases "call_On (Listener v) (Event EventAfterSync None None) s4")
            from call_On_calls [OF c5] have t5: "snd s5 = snd s4 @ [OnCall (Event EventAfterSync None None) r5]"
              by simp
            show thesis
            proof (cases r5)
              case (Some err)
              have "r = Some (Errorf_event EventAfterSync err)" "vs' = ?sorted" "s' = s5"
                using run c1 None c2 None2 False c3 None3 c4 None4 c5 Some
                by (simp_all add: Sync_def Let_def up)
              then show thesis using w1 w2 t1 t2 t3 t4 t5 None None2 None3 False Some
                by (intro after_sync_refused [of "fst s1" cur err]) simp_all
            next
              case None5: None
              obtain r6 s6 where c6: "call_On (Listener v) (Event EventEnd None None) s5 = (r6, s6)"
                by (cases "call_On (Listener v) (Event EventEnd None None) s5")
              from call_On_calls [OF c6] have t6: "snd s6 = snd s5 @ [OnCall (Event EventEnd None None) r6]"
                by simp
              have "r = map_option (Errorf_event EventEnd) r6" "vs' = ?sorted" "s' = s6"
                using run c1 None c2 None2 False c3 None3 c4 None4 c5 None5 c6
                by (simp_all add: Sync_def Let_def up split: option.splits)
              then show thesis using w1 w2 t1 t2 t3 t4 t5 t6 None None2 None3 None5 False
                by (intro completed [of "fst s1" cur r6]) simp_all
            qed
          qed
        qed
      qed
    qed
  qed
qed

lemma action_call_simps [simp]:
  "action_call True x r = UpgradeCall x r"
  "action_call False x r = RollbackCall x r"
  "action_call upgrade x r \<noteq> OnCall event e"
  "action_call upgrade x r \<noteq> CurrentVersionCall n e"
  "action_call upgrade x r \<noteq> SyncVersionCall n e"
  "OnCall event e \<noteq> action_call upgrade x r"
  "CurrentVersionCall n e \<noteq> action_call upgrade x r"
  "SyncVersionCall n e \<noteq> action_call upgrade x r"
  "is_change (action_call upgrade x r)"
  "action_call upgrade x r = UpgradeCall y r' \<longleftrightarrow> upgrade \<and> x = y \<and> r = r'"
  "action_call upgrade x r = RollbackCall y r' \<longleftrightarrow> \<not> upgrade \<and> x = y \<and> r = r'"
  "action_call upgrade x r = action_call upgrade y r' \<longleftrightarrow> x = y \<and> r = r'"
  "UpgradeCall y r' = action_call upgrade x r \<longleftrightarrow> upgrade \<and> x = y \<and> r = r'"
  "RollbackCall y r' = action_call upgrade x r \<longleftrightarrow> \<not> upgrade \<and> x = y \<and> r = r'"
  by (auto simp: action_call_def)

lemma in_applied_calls:
  "c \<in> set (applied_calls V upgrade x) \<longleftrightarrow>
     c = OnCall (Event EventBeforeChange (Some x) None) None
   \<or> c = action_call upgrade x None
   \<or> c = SyncVersionCall (Number V x) None
   \<or> c = OnCall (Event EventAfterChange (Some x) None) None"
  by (auto simp: applied_calls_def)

lemma CurrentVersionCall_notin_applied:
  "CurrentVersionCall n e \<notin> set (applied_calls V upgrade x)"
  by (simp add: in_applied_calls)

lemma CurrentVersionCall_notin_failed:
  "failed_calls V upgrade x tail err \<Longrightarrow> CurrentVersionCall n e \<notin> set tail"
  by (auto simp: failed_calls.simps)

lemma Sync_read_cases [consumes 2, case_names up_to_date
    before_sync_refused change_failed after_sync_refused completed]:
  assumes run: "Sync sort_Slice V v target (w, []) = (r, vs', s')"
    and read: "CurrentVersionCall cur None \<in> set (snd s')"
  obtains
    (up_to_date) w1 eventErr where
      "cur = target"
      "Listener v (Event EventStart None None) w = (None, w1)"
      "fst (CurrentVersion (Applier v) w1) = (cur, None)"
      "snd s' = [OnCall (Event EventStart None None) None, CurrentVersionCall target None,
                 OnCall (Event EventEnd None None) eventErr]"
      "r = map_option (Errorf_event EventEnd) eventErr"
      "vs' = Versions v"
  | (before_sync_refused) w1 err where
      "Listener v (Event EventStart None None) w = (None, w1)"
      "fst (CurrentVersion (Applier v) w1) = (cur, None)"
      "cur \<noteq> target"
      "snd s' = [OnCall (Event EventStart None None) None, CurrentVersionCall cur None,
                 OnCall (Event EventBeforeSync None None) (Some err)]"
      "r = Some (Errorf_event EventBeforeSync err)"
      "vs' = sort_Slice (\<lambda>i j. Number V i < Number V j) (Versions v)"
  | (change_failed) w1 pre x post tail err where
      "Listener v (Event EventStart None None) w = (None, w1)"
      "fst (CurrentVersion (Applier v) w1) = (cur, None)"
      "cur \<noteq> target"
      "loadVersionsToApply V (sort_Slice (\<lambda>i j. Number V i < Number V j) (Versions v))
         (\<not> target < cur) cur target = pre @ x # post"
      "snd s' = [OnCall (Event EventStart None None) None, CurrentVersionCall cur None,
                 OnCall (Event EventBeforeSync None None) None]
                @ concat (map (applied_calls V (\<not> target < cur)) pre) @ tail"
      "failed_calls V (\<not> target < cur) x tail err"
      "r = Some err"
      "vs' = sort_Slice (\<lambda>i j. Number V i < Number V j) (Versions v)"
  | (after_sync_refused) w1 err where
      "Listener v (Event EventStart None None) w = (None, w1)"
      "fst (CurrentVersion (Applier v) w1) = (cur, None)"
      "cur \<noteq> target"
      "snd s' = [OnCall (Event EventStart None None) None, CurrentVersionCall cur None,
                 OnCall (Event EventBeforeSync None None) None]
                @ concat (map (applied_calls V (\<not> target < cur))
                    (loadVersionsToApply V (sort_Slice (\<lambda>i j. Number V i < Number V j) (Versions v))
                       (\<not> target < cur) cur target))
                @ [OnCall (Event EventAfterSync None None) (Some err)]"
      "r = Some (Errorf_event EventAfterSync err)"
      "vs' = sort_Slice (\<lambda>i j. Number V i < Number V j) (Versions v)"
  | (completed) w1 eventErr where
      "Listener v (Event EventStart None None) w = (None, w1)"
      "fst (CurrentVersion (Applier v) w1) = (cur, None)"
      "cur \<noteq> target"
      "snd s' = [OnCall (Event EventStart None None) None, CurrentVersionCall cur None,
                 OnCall (Event EventBeforeSync None None) None]
                @ concat (map (applied_calls V (\<not> target < cur))
                    (loadVersionsToApply V (sort_Slice (\<lambda>i j. Number V i < Number V j) (Versions v))
                       (\<not> target < cur) cur target))
                @ [OnCall (Event EventAfterSync None None) None,
                   OnCall (Event EventEnd None None) eventErr]"
      "r = map_option (Errorf_event EventEnd) eventErr"
      "vs' = sort_Slice (\<lambda>i j. Number V i < Number V j) (Versions v)"
  using run
proof (cases rule: Sync_cases)
  case (start_refused err)
  then show ?thesis using read by simp
next
  case (read_failed w1 cur' err eventErr)
  then show ?thesis using read by simp
next
  case (up_to_date w1 eventErr)
  moreover from this read have "cur = target" by simp
  ultimately show ?thesis using that(1) [of w1 eventErr] by simp
next
  case (before_sync_refused w1 cur' err)
  moreover from this read have "cur' = cur" by simp
  ultimately show ?thesis using that(2) [of w1 err] by simp
next
  case (change_failed w1 cur' pre x post tail err)
  moreover from this read have "cur' = cur"
    by (auto simp: CurrentVersionCall_notin_applied CurrentVersionCall_notin_failed)
  ultimately show ?thesis using that(3) [of w1 pre x post tail err] by simp
next
  case (after_sync_refused w1 cur' err)
  moreover from this read have "cur' = cur"
    by (auto simp: CurrentVersionCall_notin_applied)
  ultimately show ?thesis using that(4) [of w1 err] by simp
next
  case (completed w1 cur' eventErr)
  moreover from this read have "cur' = cur"
    by (auto simp: CurrentVersionCall_notin_applied)
  ultimately show ?thesis using that(5) [of w1 eventErr] by simp
qed

lemmas run_defs = Sync_def Versioner_CurrentVersion_def call_On_def call_CurrentVersion_def
  call_SyncVersion_def call_Upgrade_def call_Rollback_def apply_version_def persist_change_def
  change_failed_def change_error_def Errorf_event_def loadVersionsToApply_def
  NewVersioner_def NoOpListener_On_def memApplier_def script_def taggedVersion_def vetoListener_def
  itoa_def utoa.simps digit_char_def

subsection \<open>The target is the current version\<close>

text \<open>
  Claim C4, as amended.  When the current version read from the applier equals the
  target, \<^verbatim>\<open>Sync\<close> makes three calls and no other: the start event, the
  \<^verbatim>\<open>CurrentVersion\<close> read and the end event.  So there is no applier or version
  call beyond the read, no script runs, no before-sync or after-sync event is
  emitted, and the held versions are not sorted.  \<^verbatim>\<open>Sync\<close> returns success when
  the listener accepts the end event; when the listener refuses it, \<^verbatim>\<open>Sync\<close>
  returns that failure wrapped as \<^verbatim>\<open>event end: ...\<close>.
\<close>

theorem Sync_up_to_date:
  assumes "Sync sort_Slice V v target (w, []) = (r, vs', s')"
    and "CurrentVersionCall target None \<in> set (snd s')"
  shows "\<exists>eventErr.
           snd s' = [OnCall (Event EventStart None None) None,
                     CurrentVersionCall target None,
                     OnCall (Event EventEnd None None) eventErr]
         \<and> r = map_option (Errorf_event EventEnd) eventErr
         \<and> (eventErr = None \<longrightarrow> r = None)
         \<and> vs' = Versions v"
  using assms by (cases rule: Sync_read_cases) auto

text \<open>
  The theorem at the versions 2 and 1 with version 1 on record, target 1 and the
  listener that does nothing.
\<close>

theorem Sync_up_to_date_witness:
  "CurrentVersionCall 1 None \<in> set (snd (snd (snd
      (Sync insertionSort taggedVersion (NewVersioner memApplier [(2, ''b''), (1, ''a'')]) 1 (1, [])))))
   \<and> Sync insertionSort taggedVersion (NewVersioner memApplier [(2, ''b''), (1, ''a'')]) 1 (1, [])
     = (None, [(2, ''b''), (1, ''a'')], 1,
        [OnCall (Event EventStart None None) None, CurrentVersionCall 1 None,
         OnCall (Event EventEnd None None) None])"
proof -
  have run: "Sync insertionSort taggedVersion (NewVersioner memApplier [(2, ''b''), (1, ''a'')]) 1 (1, [])
     = (None, [(2, ''b''), (1, ''a'')], 1,
        [OnCall (Event EventStart None None) None, CurrentVersionCall 1 None,
         OnCall (Event EventEnd None None) None])"
    by (simp add: run_defs)
  from Sync_up_to_date [OF run] show ?thesis using run by simp
qed

text \<open>
  Claim C4 as stated fails: with version 1 on record and target 1, a listener that
  refuses the end event makes \<^verbatim>\<open>Sync\<close> return a failure, not success.
\<close>

theorem Sync_up_to_date_end_refused_counterexample:
  "Sync insertionSort taggedVersion
     ((NewVersioner memApplier [(2, ''b''), (1, ''a'')])\<lparr>Listener := vetoListener EventEnd\<rparr>) 1 (1, [])
   = (Some (wrapError ''event end: veto'' (errorString ''veto'')), [(2, ''b''), (1, ''a'')], 1,
      [OnCall (Event EventStart None None) None, CurrentVersionCall 1 None,
       OnCall (Event EventEnd None None) (Some (errorString ''veto''))])"
  by (simp add: run_defs)

subsection \<open>The applied sequence\<close>

lemma filter_change_applied:
  "filter is_change (concat (map (applied_calls V upgrade) xs))
   = concat (map (\<lambda>x. [action_call upgrade x None, SyncVersionCall (Number V x) None]) xs)"
  by (induction xs) (simp_all add: applied_calls_def)

lemma filter_change_failed:
  assumes "failed_calls V upgrade x tail err"
  shows "filter is_change tail = []
       \<or> (\<exists>e. filter is_change tail = [action_call upgrade x (Some e)])
       \<or> (\<exists>e. filter is_change tail = [action_call upgrade x None, SyncVersionCall (Number V x) (Some e)])
       \<or> (filter is_change tail = [action_call upgrade x None, SyncVersionCall (Number V x) None])"
  using assms by (auto simp: failed_calls.simps)

text \<open>The change calls of a run that read a current version other than the target.\<close>

lemma Sync_changes:
  assumes run: "Sync sort_Slice V v target (w, []) = (r, vs', s')"
    and read: "CurrentVersionCall cur None \<in> set (snd s')"
    and ne: "cur \<noteq> target"
  shows "\<exists>applied rest.
           prefix applied (loadVersionsToApply V vs' (\<not> target < cur) cur target)
         \<and> vs' = sort_Slice (\<lambda>i j. Number V i < Number V j) (Versions v)
         \<and> filter is_change (snd s')
             = concat (map (\<lambda>x. [action_call (\<not> target < cur) x None,
                                   SyncVersionCall (Number V x) None]) applied) @ rest
         \<and> (rest = []
            \<or> (\<exists>x err. prefix (applied @ [x]) (loadVersionsToApply V vs' (\<not> target < cur) cur target)
                  \<and> (rest = [action_call (\<not> target < cur) x (Some err)]
                     \<or> rest = [action_call (\<not> target < cur) x None,
                                SyncVersionCall (Number V x) (Some err)])))
         \<and> (r = None \<longrightarrow> applied = loadVersionsToApply V vs' (\<not> target < cur) cur target \<and> rest = [])"
  using run read
proof (cases rule: Sync_read_cases)
  case (up_to_date w1 eventErr)
  then show ?thesis using ne by simp
next
  case (before_sync_refused w1 err)
  then have "prefix [] (loadVersionsToApply V vs' (\<not> target < cur) cur target)
         \<and> vs' = sort_Slice (\<lambda>i j. Number V i < Number V j) (Versions v)
         \<and> filter is_change (snd s')
             = concat (map (\<lambda>x. [action_call (\<not> target < cur) x None,
                                   SyncVersionCall (Number V x) None]) []) @ []
         \<and> ([] = [] \<or> False)
         \<and> (r = None \<longrightarrow> False)" by simp
  then show ?thesis by blast
next
  case (change_failed w1 pre x post tail err)
  let ?up = "\<not> target < cur"
  let ?pair = "\<lambda>x. [action_call ?up x None, SyncVersionCall (Number V x) None]"
  have sel: "loadVersionsToApply V vs' ?up cur target = pre @ x # post"
    using change_failed by simp
  have ch: "filter is_change (snd s') = concat (map ?pair pre) @ filter is_change tail"
    using change_failed by (simp add: filter_change_applied)
  from filter_change_failed [OF change_failed(6)]
  consider "filter is_change tail = []"
    | e where "filter is_change tail = [action_call ?up x (Some e)]"
    | e where "filter is_change tail = [action_call ?up x None, SyncVersionCall (Number V x) (Some e)]"
    | "filter is_change tail = [action_call ?up x None, SyncVersionCall (Number V x) None]"
    by blast
  then show ?thesis
  proof cases
    case 1
    then have "prefix pre (loadVersionsToApply V vs' ?up cur target)
         \<and> vs' = sort_Slice (\<lambda>i j. Number V i < Number V j) (Versions v)
         \<and> filter is_change (snd s') = concat (map ?pair pre) @ []
         \<and> ([] = [] \<or> False) \<and> (r = None \<longrightarrow> False)"
      using sel ch change_failed(7,8) by simp
    then show ?thesis by blast
  next
    case 2
    then have "prefix pre (loadVersionsToApply V vs' ?up cur target)
         \<and> vs' = sort_Slice (\<lambda>i j. Number V i < Number V j) (Versions v)
         \<and> filter is_change (snd s') = concat (map ?pair pre) @ [action_call ?up x (Some e)]
         \<and> ([action_call ?up x (Some e)] = []
            \<or> (\<exists>y err. prefix (pre @ [y]) (loadVersionsToApply V vs' ?up cur target)
                  \<and> ([action_call ?up x (Some e)] = [action_call ?up y (Some err)]
                     \<or> [action_call ?up x (Some e)] = [action_call ?up y None, SyncVersionCall (Number V y) (Some err)])))
         \<and> (r = None \<longrightarrow> False)"
      using sel ch change_failed(7,8) by auto
    then show ?thesis by blast
  next
    case 3
    then have "prefix pre (loadVersionsToApply V vs' ?up cur target)
         \<and> vs' = sort_Slice (\<lambda>i j. Number V i < Number V j) (Versions v)
         \<and> filter is_change (snd s') = concat (map ?pair pre) @ [action_call ?up x None, SyncVersionCall (Number V x) (Some e)]
         \<and> ([action_call ?up x None, SyncVersionCall (Number V x) (Some e)] = []
            \<or> (\<exists>y err. prefix (pre @ [y]) (loadVersionsToApply V vs' ?up cur target)
                  \<and> ([action_call ?up x None, SyncVersionCall (Number V x) (Some e)] = [action_call ?up y (Some err)]
                     \<or> [action_call ?up x None, SyncVersionCall (Number V x) (Some e)] = [action_call ?up y None, SyncVersionCall (Number V y) (Some err)])))
         \<and> (r = None \<longrightarrow> False)"
      using sel ch change_failed(7,8) by auto
    then show ?thesis by blast
  next
    case 4
    then have "prefix (pre @ [x]) (loadVersionsToApply V vs' ?up cur target)
         \<and> vs' = sort_Slice (\<lambda>i j. Number V i < Number V j) (Versions v)
         \<and> filter is_change (snd s') = concat (map ?pair (pre @ [x])) @ []
         \<and> ([] = [] \<or> False) \<and> (r = None \<longrightarrow> False)"
      using sel ch change_failed(7,8) by simp
    then show ?thesis by blast
  qed
next
  case (after_sync_refused w1 err)
  let ?up = "\<not> target < cur"
  let ?pair = "\<lambda>x. [action_call ?up x None, SyncVersionCall (Number V x) None]"
  let ?sel = "loadVersionsToApply V vs' ?up cur target"
  have "prefix ?sel ?sel
         \<and> vs' = sort_Slice (\<lambda>i j. Number V i < Number V j) (Versions v)
         \<and> filter is_change (snd s') = concat (map ?pair ?sel) @ []
         \<and> ([] = [] \<or> False) \<and> (r = None \<longrightarrow> ?sel = ?sel \<and> [] = [])"
    using after_sync_refused by (simp add: filter_change_applied)
  then show ?thesis by blast
next
  case (completed w1 eventErr)
  let ?up = "\<not> target < cur"
  let ?pair = "\<lambda>x. [action_call ?up x None, SyncVersionCall (Number V x) None]"
  let ?sel = "loadVersionsToApply V vs' ?up cur target"
  have "prefix ?sel ?sel
         \<and> vs' = sort_Slice (\<lambda>i j. Number V i < Number V j) (Versions v)
         \<and> filter is_change (snd s') = concat (map ?pair ?sel) @ []
         \<and> ([] = [] \<or> False) \<and> (r = None \<longrightarrow> ?sel = ?sel \<and> [] = [])"
    using completed by (simp add: filter_change_applied)
  then show ?thesis by blast
qed

lemma sorted_versions_between:
  assumes "sort_Slice_sorts sort_Slice V"
  shows "sorted (map (Number V) (versions_between V lo hi (sort_Slice (\<lambda>i j. Number V i < Number V j) xs)))"
  using assms by (simp add: sort_Slice_sorts_def versions_between_def sorted_filter)

lemma mset_versions_between:
  assumes "sort_Slice_sorts sort_Slice V"
  shows "mset (versions_between V lo hi (sort_Slice (\<lambda>i j. Number V i < Number V j) xs))
       = mset (versions_between V lo hi xs)"
  using assms by (simp add: sort_Slice_sorts_def versions_between_def)

lemma distinct_versions_between:
  assumes "sort_Slice_sorts sort_Slice V" and "distinct (map (Number V) xs)"
  shows "distinct (map (Number V) (versions_between V lo hi (sort_Slice (\<lambda>i j. Number V i < Number V j) xs)))"
proof -
  let ?ys = "sort_Slice (\<lambda>i j. Number V i < Number V j) xs"
  have "mset (map (Number V) ?ys) = mset (map (Number V) xs)"
    using assms(1) by (simp add: sort_Slice_sorts_def)
  then have "distinct (map (Number V) ?ys)"
    using assms(2) by (metis mset_eq_imp_distinct_iff)
  then show ?thesis
    unfolding versions_between_def by (rule distinct_map_filter)
qed

text \<open>
  Claim C1, as amended.  When the current version read from the applier is strictly
  below the target, the versions selected for application are exactly the held
  versions whose number is strictly greater than the current version and strictly
  less than the target, in ascending order of number: strictly ascending when the
  held numbers are pairwise distinct, while held versions that share a number in
  that range are all selected.  They are applied in that order, \<^verbatim>\<open>Upgrade()\<close> and
  then \<^verbatim>\<open>SyncVersion\<close> of the number for each one, up to the first failure: the
  calls that change anything are these pairs for a prefix of the selection, followed
  by nothing, by a failed \<^verbatim>\<open>Upgrade()\<close> of the next version, or by its \<^verbatim>\<open>Upgrade()\<close>
  and a failed \<^verbatim>\<open>SyncVersion\<close>.  When \<^verbatim>\<open>Sync\<close> returns success the prefix is the
  whole selection.
\<close>

theorem Sync_upgrade_sequence:
  assumes sorts: "sort_Slice_sorts sort_Slice V"
    and run: "Sync sort_Slice V v target (w, []) = (r, vs', s')"
    and read: "CurrentVersionCall cur None \<in> set (snd s')"
    and lt: "cur < target"
  shows "mset (versions_between V cur target vs') = mset (versions_between V cur target (Versions v))
       \<and> sorted (map (Number V) (versions_between V cur target vs'))
       \<and> (distinct (map (Number V) (Versions v))
            \<longrightarrow> sorted_wrt (<) (map (Number V) (versions_between V cur target vs')))
       \<and> (\<exists>applied rest.
             prefix applied (versions_between V cur target vs')
           \<and> filter is_change (snd s')
               = concat (map (\<lambda>x. [UpgradeCall x None, SyncVersionCall (Number V x) None]) applied) @ rest
           \<and> (rest = []
              \<or> (\<exists>x err. prefix (applied @ [x]) (versions_between V cur target vs')
                    \<and> (rest = [UpgradeCall x (Some err)]
                       \<or> rest = [UpgradeCall x None, SyncVersionCall (Number V x) (Some err)])))
           \<and> (r = None \<longrightarrow> applied = versions_between V cur target vs' \<and> rest = []))"
proof -
  have up: "(\<not> target < cur) = True" using lt by simp
  have sel: "loadVersionsToApply V xs True cur target = versions_between V cur target xs" for xs
    by (simp add: loadVersionsToApply_upgrade versions_between_def)
  from lt have "cur \<noteq> target" by simp
  from Sync_changes [OF run read this] obtain applied rest where
    vs': "vs' = sort_Slice (\<lambda>i j. Number V i < Number V j) (Versions v)"
    and *: "prefix applied (versions_between V cur target vs')"
      "filter is_change (snd s')
         = concat (map (\<lambda>x. [UpgradeCall x None, SyncVersionCall (Number V x) None]) applied) @ rest"
      "rest = []
       \<or> (\<exists>x err. prefix (applied @ [x]) (versions_between V cur target vs')
             \<and> (rest = [UpgradeCall x (Some err)]
                \<or> rest = [UpgradeCall x None, SyncVersionCall (Number V x) (Some err)]))"
      "r = None \<longrightarrow> applied = versions_between V cur target vs' \<and> rest = []"
    unfolding up sel action_call_simps by blast
  have a: "mset (versions_between V cur target vs') = mset (versions_between V cur target (Versions v))"
    unfolding vs' by (rule mset_versions_between [OF sorts])
  have b: "sorted (map (Number V) (versions_between V cur target vs'))"
    unfolding vs' by (rule sorted_versions_between [OF sorts])
  have c: "sorted_wrt (<) (map (Number V) (versions_between V cur target vs'))"
    if "distinct (map (Number V) (Versions v))"
    using b distinct_versions_between [OF sorts that, of cur target]
    unfolding vs' by (simp add: strict_sorted_iff)
  from a b c * show ?thesis by blast
qed

text \<open>
  The theorem at the held versions 2, 0, 1 with nothing on record (-1) and target 2:
  versions 0 and 1 are upgraded and persisted, in this order.
\<close>

theorem Sync_upgrade_sequence_witness:
  "sort_Slice_sorts insertionSort taggedVersion
   \<and> CurrentVersionCall (- 1) None \<in> set (snd (snd (snd
       (Sync insertionSort taggedVersion
          (NewVersioner memApplier [(2, ''c''), (0, ''a''), (1, ''b'')]) 2 (- 1, [])))))
   \<and> (- 1 :: int) < 2
   \<and> versions_between taggedVersion (- 1) 2 [(0, ''a''), (1, ''b''), (2, ''c'')] = [(0, ''a''), (1, ''b'')]
   \<and> sorted_wrt (<) (map (Number taggedVersion)
        (versions_between taggedVersion (- 1) 2 [(0, ''a''), (1, ''b''), (2, ''c'')]))
   \<and> filter is_change (snd (snd (snd
       (Sync insertionSort taggedVersion
          (NewVersioner memApplier [(2, ''c''), (0, ''a''), (1, ''b'')]) 2 (- 1, [])))))
     = [UpgradeCall (0, ''a'') None, SyncVersionCall 0 None,
        UpgradeCall (1, ''b'') None, SyncVersionCall 1 None]"
proof -
  let ?v = "NewVersioner memApplier [(2, ''c''), (0, ''a''), (1, ''b'')]"
  have run: "Sync insertionSort taggedVersion ?v 2 (- 1, [])
    = (None, [(0, ''a''), (1, ''b''), (2, ''c'')], 1,
       [OnCall (Event EventStart None None) None, CurrentVersionCall (- 1) None,
        OnCall (Event EventBeforeSync None None) None,
        OnCall (Event EventBeforeChange (Some (0, ''a'')) None) None,
        UpgradeCall (0, ''a'') None, SyncVersionCall 0 None,
        OnCall (Event EventAfterChange (Some (0, ''a'')) None) None,
        OnCall (Event EventBeforeChange (Some (1, ''b'')) None) None,
        UpgradeCall (1, ''b'') None, SyncVersionCall 1 None,
        OnCall (Event EventAfterChange (Some (1, ''b'')) None) None,
        OnCall (Event EventAfterSync None None) None,
        OnCall (Event EventEnd None None) None])"
    by (simp add: run_defs)
  have dist: "distinct (map (Number taggedVersion) (Versions ?v))"
    by (simp add: NewVersioner_def taggedVersion_def)
  have read: "CurrentVersionCall (- 1) None \<in> set (snd (snd (snd (Sync insertionSort taggedVersion ?v 2 (- 1, [])))))"
    by (simp add: run)
  have "sorted_wrt (<) (map (Number taggedVersion)
        (versions_between taggedVersion (- 1) 2 [(0, ''a''), (1, ''b''), (2, ''c'')]))"
    using Sync_upgrade_sequence [OF insertionSort_sorts run, of "- 1"] dist by (simp add: run)
  moreover have "versions_between taggedVersion (- 1) 2 [(0, ''a''), (1, ''b''), (2, ''c'')] = [(0, ''a''), (1, ''b'')]"
    by (simp add: versions_between_def taggedVersion_def)
  ultimately show ?thesis
    using insertionSort_sorts [of taggedVersion] read by (simp add: run)
qed

text \<open>
  Claim C1 as stated fails: with two held versions numbered 1, current version 0 and
  target 2, both are applied, and the numbers 1, 1 of the applied sequence are not
  strictly ascending.
\<close>

theorem Sync_upgrade_equal_numbers_counterexample:
  "Sync insertionSort taggedVersion (NewVersioner memApplier [(1, ''a''), (1, ''b'')]) 2 (0, [])
   = (None, [(1, ''a''), (1, ''b'')], 1,
       [OnCall (Event EventStart None None) None, CurrentVersionCall 0 None,
        OnCall (Event EventBeforeSync None None) None,
        OnCall (Event EventBeforeChange (Some (1, ''a'')) None) None,
        UpgradeCall (1, ''a'') None, SyncVersionCall 1 None,
        OnCall (Event EventAfterChange (Some (1, ''a'')) None) None,
        OnCall (Event EventBeforeChange (Some (1, ''b'')) None) None,
        UpgradeCall (1, ''b'') None, SyncVersionCall 1 None,
        OnCall (Event EventAfterChange (Some (1, ''b'')) None) None,
        OnCall (Event EventAfterSync None None) None,
        OnCall (Event EventEnd None None) None])
   \<and> \<not> sorted_wrt (<) (map (Number taggedVersion) [(1, ''a''), (1, ''b'')])"
  by (simp add: run_defs)

text \<open>
  Claim C2, as amended.  When the current version read from the applier is strictly
  above the target, the versions selected for application are exactly the held
  versions whose number is strictly greater than the target and strictly less than
  the current version, in descending order of number: strictly descending when the
  held numbers are pairwise distinct, while held versions that share a number in
  that range are all selected.  They are applied in that order, \<^verbatim>\<open>Rollback()\<close> and
  then \<^verbatim>\<open>SyncVersion\<close> of the number for each one, up to the first failure.  When
  \<^verbatim>\<open>Sync\<close> returns success all of them have been rolled back and persisted.
\<close>

theorem Sync_rollback_sequence:
  assumes sorts: "sort_Slice_sorts sort_Slice V"
    and run: "Sync sort_Slice V v target (w, []) = (r, vs', s')"
    and read: "CurrentVersionCall cur None \<in> set (snd s')"
    and lt: "target < cur"
  shows "mset (rev (versions_between V target cur vs')) = mset (versions_between V target cur (Versions v))
       \<and> sorted_wrt (\<ge>) (map (Number V) (rev (versions_between V target cur vs')))
       \<and> (distinct (map (Number V) (Versions v))
            \<longrightarrow> sorted_wrt (>) (map (Number V) (rev (versions_between V target cur vs'))))
       \<and> (\<exists>applied rest.
             prefix applied (rev (versions_between V target cur vs'))
           \<and> filter is_change (snd s')
               = concat (map (\<lambda>x. [RollbackCall x None, SyncVersionCall (Number V x) None]) applied) @ rest
           \<and> (rest = []
              \<or> (\<exists>x err. prefix (applied @ [x]) (rev (versions_between V target cur vs'))
                    \<and> (rest = [RollbackCall x (Some err)]
                       \<or> rest = [RollbackCall x None, SyncVersionCall (Number V x) (Some err)])))
           \<and> (r = None \<longrightarrow> applied = rev (versions_between V target cur vs') \<and> rest = []))"
proof -
  have up: "(\<not> target < cur) = False" using lt by simp
  have sel: "loadVersionsToApply V xs False cur target = rev (versions_between V target cur xs)" for xs
    by (simp add: loadVersionsToApply_rollback versions_between_def conj_commute)
  from lt have "cur \<noteq> target" by simp
  from Sync_changes [OF run read this] obtain applied rest where
    vs': "vs' = sort_Slice (\<lambda>i j. Number V i < Number V j) (Versions v)"
    and *: "prefix applied (rev (versions_between V target cur vs'))"
      "filter is_change (snd s')
         = concat (map (\<lambda>x. [RollbackCall x None, SyncVersionCall (Number V x) None]) applied) @ rest"
      "rest = []
       \<or> (\<exists>x err. prefix (applied @ [x]) (rev (versions_between V target cur vs'))
             \<and> (rest = [RollbackCall x (Some err)]
                \<or> rest = [RollbackCall x None, SyncVersionCall (Number V x) (Some err)]))"
      "r = None \<longrightarrow> applied = rev (versions_between V target cur vs') \<and> rest = []"
    unfolding up sel action_call_simps by blast
  have a: "mset (rev (versions_between V target cur vs')) = mset (versions_between V target cur (Versions v))"
    unfolding vs' using mset_versions_between [OF sorts] by simp
  have s: "sorted (map (Number V) (versions_between V target cur vs'))"
    unfolding vs' by (rule sorted_versions_between [OF sorts])
  then have b: "sorted_wrt (\<ge>) (map (Number V) (rev (versions_between V target cur vs')))"
    by (simp add: rev_map [symmetric] sorted_wrt_rev)
  have c: "sorted_wrt (>) (map (Number V) (rev (versions_between V target cur vs')))"
    if "distinct (map (Number V) (Versions v))"
  proof -
    have "sorted_wrt (<) (map (Number V) (versions_between V target cur vs'))"
      using s distinct_versions_between [OF sorts that, of target cur]
      unfolding vs' by (simp add: strict_sorted_iff)
    then show ?thesis by (simp add: rev_map [symmetric] sorted_wrt_rev)
  qed
  from a b c * show ?thesis by blast
qed

text \<open>
  The theorem at the held versions 2, 0, 1 with version 3 on record and target -1:
  versions 2, 1 and 0 are rolled back and persisted, in this order.
\<close>

theorem Sync_rollback_sequence_witness:
  "sort_Slice_sorts insertionSort taggedVersion
   \<and> CurrentVersionCall 3 None \<in> set (snd (snd (snd
       (Sync insertionSort taggedVersion
          (NewVersioner memApplier [(2, ''c''), (0, ''a''), (1, ''b'')]) (- 1) (3, [])))))
   \<and> (- 1 :: int) < 3
   \<and> rev (versions_between taggedVersion (- 1) 3 [(0, ''a''), (1, ''b''), (2, ''c'')])
       = [(2, ''c''), (1, ''b''), (0, ''a'')]
   \<and> sorted_wrt (>) (map (Number taggedVersion)
        (rev (versions_between taggedVersion (- 1) 3 [(0, ''a''), (1, ''b''), (2, ''c'')])))
   \<and> filter is_change (snd (snd (snd
       (Sync insertionSort taggedVersion
          (NewVersioner memApplier [(2, ''c''), (0, ''a''), (1, ''b'')]) (- 1) (3, [])))))
     = [RollbackCall (2, ''c'') None, SyncVersionCall 2 None,
        RollbackCall (1, ''b'') None, SyncVersionCall 1 None,
        RollbackCall (0, ''a'') None, SyncVersionCall 0 None]"
proof -
  let ?v = "NewVersioner memApplier [(2, ''c''), (0, ''a''), (1, ''b'')]"
  have run: "Sync insertionSort taggedVersion ?v (- 1) (3, [])
    = (None, [(0, ''a''), (1, ''b''), (2, ''c'')], 0,
       [OnCall (Event EventStart None None) None, CurrentVersionCall 3 None,
        OnCall (Event EventBeforeSync None None) None,
        OnCall (Event EventBeforeChange (Some (2, ''c'')) None) None,
        RollbackCall (2, ''c'') None, SyncVersionCall 2 None,
        OnCall (Event EventAfterChange (Some (2, ''c'')) None) None,
        OnCall (Event EventBeforeChange (Some (1, ''b'')) None) None,
        RollbackCall (1, ''b'') None, SyncVersionCall 1 None,
        OnCall (Event EventAfterChange (Some (1, ''b'')) None) None,
        OnCall (Event EventBeforeChange (Some (0, ''a'')) None) None,
        RollbackCall (0, ''a'') None, SyncVersionCall 0 None,
        OnCall (Event EventAfterChange (Some (0, ''a'')) None) None,
        OnCall (Event EventAfterSync None None) None,
        OnCall (Event EventEnd None None) None])"
    by (simp add: run_defs)
  have dist: "distinct (map (Number taggedVersion) (Versions ?v))"
    by (simp add: NewVersioner_def taggedVersion_def)
  have read: "CurrentVersionCall 3 None \<in> set (snd (snd (snd (Sync insertionSort taggedVersion ?v (- 1) (3, [])))))"
    by (simp add: run)
  have "sorted_wrt (>) (map (Number taggedVersion)
        (rev (versions_between taggedVersion (- 1) 3 [(0, ''a''), (1, ''b''), (2, ''c'')])))"
    using Sync_rollback_sequence [OF insertionSort_sorts run, of 3] dist by (simp add: run)
  moreover have "rev (versions_between taggedVersion (- 1) 3 [(0, ''a''), (1, ''b''), (2, ''c'')])
       = [(2, ''c''), (1, ''b''), (0, ''a'')]"
    by (simp add: versions_between_def taggedVersion_def)
  ultimately show ?thesis
    using insertionSort_sorts [of taggedVersion] read by (simp add: run)
qed

text \<open>
  Claim C2 as stated fails: with two held versions numbered 1, current version 2 and
  target 0, both are rolled back, and the numbers 1, 1 of the applied sequence are
  not strictly descending.
\<close>

theorem Sync_rollback_equal_numbers_counterexample:
  "Sync insertionSort taggedVersion (NewVersioner memApplier [(1, ''a''), (1, ''b'')]) 0 (2, [])
   = (None, [(1, ''a''), (1, ''b'')], 1,
       [OnCall (Event EventStart None None) None, CurrentVersionCall 2 None,
        OnCall (Event EventBeforeSync None None) None,
        OnCall (Event EventBeforeChange (Some (1, ''b'')) None) None,
        RollbackCall (1, ''b'') None, SyncVersionCall 1 None,
        OnCall (Event EventAfterChange (Some (1, ''b'')) None) None,
        OnCall (Event EventBeforeChange (Some (1, ''a'')) None) None,
        RollbackCall (1, ''a'') None, SyncVersionCall 1 None,
        OnCall (Event EventAfterChange (Some (1, ''a'')) None) None,
        OnCall (Event EventAfterSync None None) None,
        OnCall (Event EventEnd None None) None])
   \<and> \<not> sorted_wrt (>) (map (Number taggedVersion) [(1, ''b''), (1, ''a'')])"
  by (simp add: run_defs)

subsection \<open>Refused events\<close>

lemma change_error_prefix:
  "prefix (what @ itoa n) (err_Error (change_error what n err eventErr))"
  by (cases eventErr) (simp_all add: change_error_def)

lemma change_error_Unwrap:
  "err_Unwrap (change_error what n err eventErr) = Some err"
  by (cases eventErr) (simp_all add: change_error_def)

lemma refused_in_failed:
  assumes "failed_calls V upgrade x tail err'" and "OnCall event (Some err) \<in> set tail"
  shows "(\<exists>before. tail = before @ [OnCall event (Some err)]
            \<and> (event = Event EventBeforeChange (Some x) None \<longrightarrow> before = []))
       \<and> (event = Event EventBeforeChange (Some x) None \<and> err' = Errorf_event EventBeforeChange err
          \<or> event = Event EventAfterChange (Some x) None \<and> err' = Errorf_event EventAfterChange err
          \<or> (\<exists>e. event = Event EventErrorDuringChange (Some x) (Some e)
                \<and> (err' = change_error ''upgrade to version '' (Number V x) e (Some err)
                   \<or> err' = change_error ''rollback to version '' (Number V x) e (Some err)
                   \<or> err' = change_error ''sync version to '' (Number V x) e (Some err))))"
  using assms by (cases upgrade) (auto simp: failed_calls.simps)

text \<open>
  Claim C7, as amended.  When the listener returns an error for an event, that call
  is the last call of the run: \<^verbatim>\<open>Sync\<close> returns at once.  For the events start, end,
  before-sync, after-sync, before-change and after-change the failure returned is
  \<^verbatim>\<open>event <type>: ...\<close>, wrapping the listener's error.  For the events error and
  error-during-change, which report a failure that already ends the run, the failure
  returned wraps the reported error, and carries the message of the listener's error
  as \<^verbatim>\<open>(event error: ...)\<close> without the type of the event.  When the listener
  refuses the before-change event of a version, the calls before it are the complete
  iterations of the selected versions before that version, and nothing follows: the
  action of that version is not invoked and \<^verbatim>\<open>SyncVersion\<close> is not called for it.
\<close>

theorem Sync_listener_refuses:
  assumes run: "Sync sort_Slice V v target (w, []) = (r, vs', s')"
    and refused: "OnCall event (Some err) \<in> set (snd s')"
  shows "(\<exists>before. snd s' = before @ [OnCall event (Some err)])
       \<and> (Type event \<noteq> EventError \<and> Type event \<noteq> EventErrorDuringChange
            \<longrightarrow> r = Some (Errorf_event (Type event) err))
       \<and> (Type event = EventError
            \<longrightarrow> (\<exists>e. event = Event EventError None (Some e)
                   \<and> r = Some (wrapError (''could not sync (event error: '' @ err_Error err @ ''): ''
                                            @ err_Error e) e)))
       \<and> (Type event = EventErrorDuringChange
            \<longrightarrow> (\<exists>x e. event = Event EventErrorDuringChange (Some x) (Some e)
                   \<and> (r = Some (change_error ''upgrade to version '' (Number V x) e (Some err))
                      \<or> r = Some (change_error ''rollback to version '' (Number V x) e (Some err))
                      \<or> r = Some (change_error ''sync version to '' (Number V x) e (Some err)))))
       \<and> (Type event = EventBeforeChange
            \<longrightarrow> (\<exists>cur x pre post. event = Event EventBeforeChange (Some x) None
                   \<and> loadVersionsToApply V vs' (\<not> target < cur) cur target = pre @ x # post
                   \<and> snd s' = [OnCall (Event EventStart None None) None, CurrentVersionCall cur None,
                                OnCall (Event EventBeforeSync None None) None]
                               @ concat (map (applied_calls V (\<not> target < cur)) pre)
                               @ [OnCall event (Some err)]))"
  using run
proof (cases rule: Sync_cases)
  case (start_refused err')
  then show ?thesis using refused by auto
next
  case (read_failed w1 cur err' eventErr)
  then show ?thesis using refused by auto
next
  case (up_to_date w1 eventErr)
  then show ?thesis using refused by auto
next
  case (before_sync_refused w1 cur err')
  then show ?thesis using refused by auto
next
  case (change_failed w1 cur pre x post tail err')
  let ?head = "[OnCall (Event EventStart None None) None, CurrentVersionCall cur None,
                OnCall (Event EventBeforeSync None None) None]
               @ concat (map (applied_calls V (\<not> target < cur)) pre)"
  have tr: "snd s' = ?head @ tail" using change_failed(5) by simp
  from refused tr have in_tail: "OnCall event (Some err) \<in> set tail"
    by (auto simp: in_applied_calls)
  from refused_in_failed [OF change_failed(6) in_tail] obtain before where
    before: "tail = before @ [OnCall event (Some err)]"
      "event = Event EventBeforeChange (Some x) None \<longrightarrow> before = []"
    and kinds: "event = Event EventBeforeChange (Some x) None \<and> err' = Errorf_event EventBeforeChange err
          \<or> event = Event EventAfterChange (Some x) None \<and> err' = Errorf_event EventAfterChange err
          \<or> (\<exists>e. event = Event EventErrorDuringChange (Some x) (Some e)
                \<and> (err' = change_error ''upgrade to version '' (Number V x) e (Some err)
                   \<or> err' = change_error ''rollback to version '' (Number V x) e (Some err)
                   \<or> err' = change_error ''sync version to '' (Number V x) e (Some err)))"
    by blast
  have 1: "\<exists>before. snd s' = before @ [OnCall event (Some err)]"
    using tr before(1) by (intro exI [of _ "?head @ before"]) simp
  have 2: "r = Some (Errorf_event (Type event) err)"
    if "Type event \<noteq> EventError \<and> Type event \<noteq> EventErrorDuringChange"
    using that kinds change_failed(7) by auto
  have 3: "\<exists>e. event = Event EventError None (Some e)
                   \<and> r = Some (wrapError (''could not sync (event error: '' @ err_Error err @ ''): ''
                                            @ err_Error e) e)"
    if "Type event = EventError"
    using that kinds by auto
  have 4: "\<exists>x e. event = Event EventErrorDuringChange (Some x) (Some e)
                   \<and> (r = Some (change_error ''upgrade to version '' (Number V x) e (Some err))
                      \<or> r = Some (change_error ''rollback to version '' (Number V x) e (Some err))
                      \<or> r = Some (change_error ''sync version to '' (Number V x) e (Some err)))"
    if "Type event = EventErrorDuringChange"
    using that kinds change_failed(7) by auto
  have 5: "\<exists>cur x pre post. event = Event EventBeforeChange (Some x) None
                   \<and> loadVersionsToApply V vs' (\<not> target < cur) cur target = pre @ x # post
                   \<and> snd s' = [OnCall (Event EventStart None None) None, CurrentVersionCall cur None,
                                OnCall (Event EventBeforeSync None None) None]
                               @ concat (map (applied_calls V (\<not> target < cur)) pre)
                               @ [OnCall event (Some err)]"
    if "Type event = EventBeforeChange"
  proof -
    from that kinds have ev: "event = Event EventBeforeChange (Some x) None" by auto
    with before have "tail = [OnCall event (Some err)]" by simp
    with tr ev change_failed(4,8) show ?thesis by auto
  qed
  from 1 2 3 4 5 show ?thesis by blast
next
  case (after_sync_refused w1 cur err')
  then show ?thesis using refused by (auto simp: in_applied_calls)
next
  case (completed w1 cur eventErr)
  then show ?thesis using refused by (auto simp: in_applied_calls)
qed


text \<open>
  The theorem at the versions 1 and 2, current version 0, target 3 and a listener
  that refuses the before-change event: no action and no \<^verbatim>\<open>SyncVersion\<close> is called.
\<close>

theorem Sync_listener_refuses_witness:
  "OnCall (Event EventBeforeChange (Some (1, ''a'')) None) (Some (errorString ''veto''))
     \<in> set (snd (snd (snd (Sync insertionSort taggedVersion
          ((NewVersioner memApplier [(1, ''a''), (2, ''b'')])\<lparr>Listener := vetoListener EventBeforeChange\<rparr>)
          3 (0, [])))))
   \<and> Sync insertionSort taggedVersion
       ((NewVersioner memApplier [(1, ''a''), (2, ''b'')])\<lparr>Listener := vetoListener EventBeforeChange\<rparr>)
       3 (0, [])
     = (Some (wrapError ''event before-change: veto'' (errorString ''veto'')),
        [(1, ''a''), (2, ''b'')], 0,
        [OnCall (Event EventStart None None) None, CurrentVersionCall 0 None,
         OnCall (Event EventBeforeSync None None) None,
         OnCall (Event EventBeforeChange (Some (1, ''a'')) None) (Some (errorString ''veto''))])
   \<and> Some (wrapError ''event before-change: veto'' (errorString ''veto''))
       = Some (Errorf_event EventBeforeChange (errorString ''veto''))"
proof -
  let ?v = "(NewVersioner memApplier [(1, ''a''), (2, ''b'')])\<lparr>Listener := vetoListener EventBeforeChange\<rparr>"
  have run: "Sync insertionSort taggedVersion ?v 3 (0, [])
     = (Some (wrapError ''event before-change: veto'' (errorString ''veto'')),
        [(1, ''a''), (2, ''b'')], 0,
        [OnCall (Event EventStart None None) None, CurrentVersionCall 0 None,
         OnCall (Event EventBeforeSync None None) None,
         OnCall (Event EventBeforeChange (Some (1, ''a'')) None) (Some (errorString ''veto''))])"
    by (simp add: run_defs)
  have refused: "OnCall (Event EventBeforeChange (Some (1, ''a'')) None) (Some (errorString ''veto''))
     \<in> set (snd (snd (snd (Sync insertionSort taggedVersion ?v 3 (0, [])))))"
    by (simp add: run)
  from Sync_listener_refuses [OF run, of "Event EventBeforeChange (Some (1, ''a'')) None" "errorString ''veto''"]
    refused
  have "Some (wrapError ''event before-change: veto'' (errorString ''veto''))
       = Some (Errorf_event EventBeforeChange (errorString ''veto''))"
    by (simp add: run)
  then show ?thesis using refused run by simp
qed

text \<open>
  Claim C7 as stated fails for the error-during-change event: when the upgrade of
  version 2 fails and the listener refuses the error-during-change event, the failure
  returned is \<^verbatim>\<open>upgrade to version 2 (event error: veto): boom\<close>.  Its message does not
  contain the type of the event, it wraps the error of the action, and it is not
  the failure \<^verbatim>\<open>event error-during-change: veto\<close>.
\<close>

theorem Sync_error_event_refused_counterexample:
  "Sync insertionSort taggedVersion
     ((NewVersioner memApplier [(1, ''a''), (2, ''bad''), (3, ''c'')])\<lparr>Listener := vetoListener EventErrorDuringChange\<rparr>)
     4 (0, [])
   = (Some (wrapError ''upgrade to version 2 (event error: veto): boom'' (errorString ''boom'')),
      [(1, ''a''), (2, ''bad''), (3, ''c'')], 1,
      [OnCall (Event EventStart None None) None, CurrentVersionCall 0 None,
       OnCall (Event EventBeforeSync None None) None,
       OnCall (Event EventBeforeChange (Some (1, ''a'')) None) None,
       UpgradeCall (1, ''a'') None, SyncVersionCall 1 None,
       OnCall (Event EventAfterChange (Some (1, ''a'')) None) None,
       OnCall (Event EventBeforeChange (Some (2, ''bad'')) None) None,
       UpgradeCall (2, ''bad'') (Some (errorString ''boom'')),
       OnCall (Event EventErrorDuringChange (Some (2, ''bad'')) (Some (errorString ''boom'')))
         (Some (errorString ''veto''))])
   \<and> \<not> sublist (EventType_string EventErrorDuringChange)
         (err_Error (wrapError ''upgrade to version 2 (event error: veto): boom'' (errorString ''boom'')))
   \<and> err_Unwrap (wrapError ''upgrade to version 2 (event error: veto): boom'' (errorString ''boom''))
       = Some (errorString ''boom'')
   \<and> wrapError ''upgrade to version 2 (event error: veto): boom'' (errorString ''boom'')
       \<noteq> Errorf_event EventErrorDuringChange (errorString ''veto'')"
proof -
  have "\<not> sublist (EventType_string EventErrorDuringChange)
         (err_Error (wrapError ''upgrade to version 2 (event error: veto): boom'' (errorString ''boom'')))"
    by code_simp
  then show ?thesis by (simp add: run_defs)
qed

subsection \<open>The version on record\<close>

lemma recorded_after_append [simp]:
  "recorded_after n (xs @ ys) = recorded_after (recorded_after n xs) ys"
  by (simp add: recorded_after_def)

lemma recorded_after_simps [simp]:
  "recorded_after n [] = n"
  "recorded_after n (c # cs) = recorded_after (record_call n c) cs"
  by (simp_all add: recorded_after_def)

lemma record_call_action [simp]: "record_call n (action_call upgrade x r) = n"
  by (simp add: action_call_def)

lemma recorded_after_applied:
  "recorded_after n (concat (map (applied_calls V upgrade) xs))
   = (if xs = [] then n else Number V (last xs))"
  by (induction xs arbitrary: n) (simp_all add: applied_calls_def)

lemma recorded_after_no_change:
  "filter is_change calls = [] \<Longrightarrow> recorded_after n calls = n"
proof (induction calls arbitrary: n)
  case Nil
  then show ?case by simp
next
  case (Cons c cs)
  then show ?case by (cases c) (simp_all split: if_splits)
qed

lemma call_On_follows:
  assumes "keeps_record rd V v" and "rd (fst s) = recorded_after n (snd s)"
    and "call_On (Listener v) event s = (r, s')"
  shows "rd (fst s') = recorded_after n (snd s')"
proof -
  from assms(3) have "fst s' = snd (Listener v event (fst s))" "snd s' = snd s @ [OnCall event r]"
    by (auto simp: call_On_def split: prod.splits)
  then show ?thesis using assms(1,2) by (simp add: keeps_record_def)
qed

lemma call_CurrentVersion_follows:
  assumes "keeps_record rd V v" and "rd (fst s) = recorded_after n (snd s)"
    and "call_CurrentVersion (Applier v) s = (r, s')"
  shows "rd (fst s') = recorded_after n (snd s') \<and> r = (rd (fst s), None)"
proof -
  from assms(1) have cv: "CurrentVersion (Applier v) (fst s) = ((rd (fst s), None), fst s)"
    by (simp add: keeps_record_def)
  with assms(3) have "fst s' = fst s" "snd s' = snd s @ [CurrentVersionCall (rd (fst s)) None]"
    "r = (rd (fst s), None)"
    by (auto simp: call_CurrentVersion_def)
  then show ?thesis using assms(2) by simp
qed

lemma call_SyncVersion_follows:
  assumes "keeps_record rd V v" and "rd (fst s) = recorded_after n (snd s)"
    and "call_SyncVersion (Applier v) m s = (r, s')"
  shows "rd (fst s') = recorded_after n (snd s')"
proof -
  obtain r' w' where sv: "SyncVersion (Applier v) m (fst s) = (r', w')"
    by (cases "SyncVersion (Applier v) m (fst s)")
  with assms(3) have *: "fst s' = w'" "r = r'" "snd s' = snd s @ [SyncVersionCall m r']"
    by (auto simp: call_SyncVersion_def)
  from assms(1) have "rd (snd (SyncVersion (Applier v) m (fst s)))
      = (if fst (SyncVersion (Applier v) m (fst s)) = None then m else rd (fst s))"
    by (simp add: keeps_record_def)
  then have "rd w' = (if r' = None then m else rd (fst s))" by (simp add: sv)
  then show ?thesis using * assms(2) by (cases r') simp_all
qed

lemma call_action_follows:
  assumes "keeps_record rd V v" and "rd (fst s) = recorded_after n (snd s)"
    and "(if upgrade then call_Upgrade V x s else call_Rollback V x s) = (r, s')"
  shows "rd (fst s') = recorded_after n (snd s')"
proof -
  from assms(3) have "rd (fst s') = rd (fst s)" "snd s' = snd s @ [action_call upgrade x r]"
    using assms(1)
    by (auto simp: call_Upgrade_def call_Rollback_def keeps_record_def action_call_def
             split: prod.splits if_splits) (metis snd_conv)+
  then show ?thesis using assms(2) by simp
qed


lemma change_failed_follows:
  assumes "keeps_record rd V v" and "rd (fst s) = recorded_after n (snd s)"
    and "change_failed what V v x err s = (r, s')"
  shows "rd (fst s') = recorded_after n (snd s')"
  using assms
  by (auto simp: change_failed_def split: prod.splits dest: call_On_follows)

lemma persist_change_follows:
  assumes keeps: "keeps_record rd V v" and inv: "rd (fst s) = recorded_after n (snd s)"
    and run: "persist_change V v x s = (r, s')"
  shows "rd (fst s') = recorded_after n (snd s')"
proof -
  obtain r1 s1 where c1: "call_SyncVersion (Applier v) (Number V x) s = (r1, s1)"
    by (cases "call_SyncVersion (Applier v) (Number V x) s")
  note i1 = call_SyncVersion_follows [OF keeps inv c1]
  show ?thesis
  proof (cases r1)
    case (Some err)
    then have "change_failed ''sync version to '' V v x err s1 = (r, s')"
      using run c1 by (simp add: persist_change_def)
    from change_failed_follows [OF keeps i1 this] show ?thesis .
  next
    case None
    obtain r2 s2 where c2: "call_On (Listener v) (Event EventAfterChange (Some x) None) s1 = (r2, s2)"
      by (cases "call_On (Listener v) (Event EventAfterChange (Some x) None) s1")
    then have "s' = s2" using run c1 None by (simp add: persist_change_def split: option.splits)
    with call_On_follows [OF keeps i1 c2] show ?thesis by simp
  qed
qed

lemma apply_version_follows:
  assumes keeps: "keeps_record rd V v" and inv: "rd (fst s) = recorded_after n (snd s)"
    and run: "apply_version V v upgrade x s = (r, s')"
  shows "rd (fst s') = recorded_after n (snd s')"
proof -
  obtain r1 s1 where c1: "call_On (Listener v) (Event EventBeforeChange (Some x) None) s = (r1, s1)"
    by (cases "call_On (Listener v) (Event EventBeforeChange (Some x) None) s")
  note i1 = call_On_follows [OF keeps inv c1]
  show ?thesis
  proof (cases r1)
    case (Some err)
    then have "s' = s1" using run c1 by (simp add: apply_version_def)
    with i1 show ?thesis by simp
  next
    case None
    obtain r2 s2 where c2: "(if upgrade then call_Upgrade V x s1 else call_Rollback V x s1) = (r2, s2)"
      by (cases "if upgrade then call_Upgrade V x s1 else call_Rollback V x s1")
    note i2 = call_action_follows [OF keeps i1 c2]
    show ?thesis
    proof (cases r2)
      case (Some err)
      then have "change_failed (if upgrade then ''upgrade to version '' else ''rollback to version '') V v x err s2 = (r, s')"
        using run c1 None c2 by (auto simp: apply_version_def split: if_splits)
      from change_failed_follows [OF keeps i2 this] show ?thesis .
    next
      case None2: None
      then have "persist_change V v x s2 = (r, s')"
        using run c1 None c2 by (auto simp: apply_version_def split: if_splits)
      from persist_change_follows [OF keeps i2 this] show ?thesis .
    qed
  qed
qed

lemma apply_versions_follows:
  assumes "keeps_record rd V v" and "rd (fst s) = recorded_after n (snd s)"
    and "apply_versions V v upgrade xs s = (r, s')"
  shows "rd (fst s') = recorded_after n (snd s')"
  using assms
proof (induction xs arbitrary: s)
  case Nil
  then show ?case by simp
next
  case (Cons a xs)
  obtain r1 s1 where one: "apply_version V v upgrade a s = (r1, s1)"
    by (cases "apply_version V v upgrade a s")
  note i1 = apply_version_follows [OF Cons.prems(1,2) one]
  show ?case
  proof (cases r1)
    case (Some err)
    then have "s' = s1" using Cons.prems(3) one by simp
    with i1 show ?thesis by simp
  next
    case None
    then have "apply_versions V v upgrade xs s1 = (r, s')" using Cons.prems(3) one by simp
    from Cons.IH [OF Cons.prems(1) i1 this] show ?thesis .
  qed
qed

lemma Sync_follows:
  assumes keeps: "keeps_record rd V v"
    and run: "Sync sort_Slice V v target (w, []) = (r, vs', s')"
  shows "rd (fst s') = recorded_after (rd w) (snd s')"
proof -
  let ?n = "rd w"
  have i0: "rd (fst (w, [])) = recorded_after ?n (snd (w, []))" by simp
  obtain r1 s1 where c1: "call_On (Listener v) (Event EventStart None None) (w, []) = (r1, s1)"
    by (cases "call_On (Listener v) (Event EventStart None None) (w, [])")
  note i1 = call_On_follows [OF keeps i0 c1]
  show ?thesis
  proof (cases r1)
    case (Some err)
    then have "s' = s1" using run c1 by (simp add: Sync_def)
    with i1 show ?thesis by simp
  next
    case None
    obtain cur r2 s2 where c2: "Versioner_CurrentVersion v s1 = ((cur, r2), s2)"
      by (cases "Versioner_CurrentVersion v s1") auto
    then have c2': "call_CurrentVersion (Applier v) s1 = ((cur, r2), s2)"
      by (simp add: Versioner_CurrentVersion_def)
    from call_CurrentVersion_follows [OF keeps i1 c2']
    have i2: "rd (fst s2) = recorded_after ?n (snd s2)" and r2: "r2 = None" by simp_all
    show ?thesis
    proof (cases "cur = target")
      case True
      obtain r3 s3 where c3: "call_On (Listener v) (Event EventEnd None None) s2 = (r3, s3)"
        by (cases "call_On (Listener v) (Event EventEnd None None) s2")
      then have "s' = s3" using run c1 None c2 r2 True by (simp add: Sync_def split: option.splits)
      with call_On_follows [OF keeps i2 c3] show ?thesis by simp
    next
      case False
      let ?sorted = "sort_Slice (\<lambda>i j. Number V i < Number V j) (Versions v)"
      let ?up = "\<not> target < cur"
      let ?sel = "loadVersionsToApply V ?sorted ?up cur target"
      have up: "(if target < cur then False else True) = ?up" by simp
      obtain r3 s3 where c3: "call_On (Listener v) (Event EventBeforeSync None None) s2 = (r3, s3)"
        by (cases "call_On (Listener v) (Event EventBeforeSync None None) s2")
      note i3 = call_On_follows [OF keeps i2 c3]
      show ?thesis
      proof (cases r3)
        case (Some err)
        then have "s' = s3" using run c1 None c2 r2 False c3 by (simp add: Sync_def Let_def)
        with i3 show ?thesis by simp
      next
        case None3: None
        obtain r4 s4 where c4: "apply_versions V v ?up ?sel s3 = (r4, s4)"
          by (cases "apply_versions V v ?up ?sel s3")
        note i4 = apply_versions_follows [OF keeps i3 c4]
        show ?thesis
        proof (cases r4)
          case (Some err)
          then have "s' = s4" using run c1 None c2 r2 False c3 None3 c4 by (simp add: Sync_def Let_def up)
          with i4 show ?thesis by simp
        next
          case None4: None
          obtain r5 s5 where c5: "call_On (Listener v) (Event EventAfterSync None None) s4 = (r5, s5)"
            by (cases "call_On (Listener v) (Event EventAfterSync None None) s4")
          note i5 = call_On_follows [OF keeps i4 c5]
          show ?thesis
          proof (cases r5)
            case (Some err)
            then have "s' = s5" using run c1 None c2 r2 False c3 None3 c4 None4 c5
              by (simp add: Sync_def Let_def up)
            with i5 show ?thesis by simp
          next
            case None5: None
            obtain r6 s6 where c6: "call_On (Listener v) (Event EventEnd None None) s5 = (r6, s6)"
              by (cases "call_On (Listener v) (Event EventEnd None None) s5")
            then have "s' = s6" using run c1 None c2 r2 False c3 None3 c4 None4 c5 None5
              by (simp add: Sync_def Let_def up split: option.splits)
            with call_On_follows [OF keeps i5 c6] show ?thesis by simp
          qed
        qed
      qed
    qed
  qed
qed

lemma keeps_record_On:
  assumes "keeps_record rd V v" and "Listener v event w = (r, w')"
  shows "rd w' = rd w"
proof -
  from assms(1) have "rd (snd (Listener v event w)) = rd w" by (simp add: keeps_record_def)
  then show ?thesis by (simp add: assms(2))
qed

text \<open>With collaborators that keep a record, the number read is the one on record.\<close>

lemma Sync_reads_record:
  assumes keeps: "keeps_record rd V v"
    and run: "Sync sort_Slice V v target (w, []) = (r, vs', s')"
    and read: "CurrentVersionCall cur e \<in> set (snd s')"
  shows "cur = rd w \<and> e = None"
  using run
proof (cases rule: Sync_cases)
  case (start_refused err)
  then show ?thesis using read by simp
next
  case (read_failed w1 cur' err eventErr)
  then show ?thesis using keeps by (simp add: keeps_record_def)
next
  case (up_to_date w1 eventErr)
  moreover have "rd w1 = rd w" using keeps_record_On [OF keeps up_to_date(1)] .
  moreover have "fst (CurrentVersion (Applier v) w1) = (rd w1, None)"
    using keeps by (simp add: keeps_record_def)
  ultimately show ?thesis using read by auto
next
  case (before_sync_refused w1 cur' err)
  moreover have "rd w1 = rd w" using keeps_record_On [OF keeps before_sync_refused(1)] .
  moreover have "fst (CurrentVersion (Applier v) w1) = (rd w1, None)"
    using keeps by (simp add: keeps_record_def)
  ultimately show ?thesis using read by auto
next
  case (change_failed w1 cur' pre x post tail err)
  moreover have "rd w1 = rd w" using keeps_record_On [OF keeps change_failed(1)] .
  moreover have "fst (CurrentVersion (Applier v) w1) = (rd w1, None)"
    using keeps by (simp add: keeps_record_def)
  ultimately show ?thesis using read
    by (auto simp: in_applied_calls dest: CurrentVersionCall_notin_failed)
next
  case (after_sync_refused w1 cur' err)
  moreover have "rd w1 = rd w" using keeps_record_On [OF keeps after_sync_refused(1)] .
  moreover have "fst (CurrentVersion (Applier v) w1) = (rd w1, None)"
    using keeps by (simp add: keeps_record_def)
  ultimately show ?thesis using read by (auto simp: in_applied_calls)
next
  case (completed w1 cur' eventErr)
  moreover have "rd w1 = rd w" using keeps_record_On [OF keeps completed(1)] .
  moreover have "fst (CurrentVersion (Applier v) w1) = (rd w1, None)"
    using keeps by (simp add: keeps_record_def)
  ultimately show ?thesis using read by (auto simp: in_applied_calls)
qed

subsection \<open>What is persisted\<close>

lemma in_loadVersionsToApply:
  "x \<in> set (loadVersionsToApply V xs (\<not> target < cur) cur target) \<longleftrightarrow>
     x \<in> set xs \<and> cur \<noteq> target
     \<and> (cur < Number V x \<and> Number V x < target \<or> target < Number V x \<and> Number V x < cur)"
  by (cases "target < cur") (auto simp: loadVersionsToApply_upgrade loadVersionsToApply_rollback)

lemma sort_Slice_set:
  "sort_Slice_sorts sort_Slice V \<Longrightarrow> set (sort_Slice (\<lambda>i j. Number V i < Number V j) xs) = set xs"
  by (metis sort_Slice_sorts_def mset_eq_setD)

text \<open>Every persisted number is the number of a selected version.\<close>

lemma Sync_persisted_selected:
  assumes run: "Sync sort_Slice V v target (w, []) = (r, vs', s')"
    and call: "SyncVersionCall n e \<in> set (snd s')"
  shows "\<exists>cur x. CurrentVersionCall cur None \<in> set (snd s')
           \<and> vs' = sort_Slice (\<lambda>i j. Number V i < Number V j) (Versions v)
           \<and> x \<in> set (loadVersionsToApply V vs' (\<not> target < cur) cur target)
           \<and> n = Number V x"
  using run
proof (cases rule: Sync_cases)
  case (change_failed w1 cur pre x post tail err)
  from call change_failed(5) consider y where "y \<in> set pre" "n = Number V y" | "SyncVersionCall n e \<in> set tail"
    by (auto simp: in_applied_calls)
  then show ?thesis
  proof cases
    case 1
    then have "y \<in> set (loadVersionsToApply V vs' (\<not> target < cur) cur target)"
      using change_failed(4,8) by simp
    then show ?thesis using change_failed(5,8) 1 by auto
  next
    case 2
    with change_failed(6) have "n = Number V x" by (auto simp: failed_calls.simps)
    moreover have "x \<in> set (loadVersionsToApply V vs' (\<not> target < cur) cur target)"
      using change_failed(4,8) by simp
    ultimately show ?thesis using change_failed(5,8) by auto
  qed
next
  case (after_sync_refused w1 cur err)
  then show ?thesis using call by (auto simp: in_applied_calls)
next
  case (completed w1 cur eventErr)
  then show ?thesis using call by (auto simp: in_applied_calls)
qed (use call in auto)

text \<open>After a successful run that persisted something, the last selected version is on record.\<close>

lemma Sync_success_recorded:
  assumes run: "Sync sort_Slice V v target (w, []) = (None, vs', s')"
    and call: "SyncVersionCall n e \<in> set (snd s')"
  shows "\<exists>cur x. CurrentVersionCall cur None \<in> set (snd s')
           \<and> x \<in> set (loadVersionsToApply V vs' (\<not> target < cur) cur target)
           \<and> (\<forall>n0. recorded_after n0 (snd s') = Number V x)"
  using run
proof (cases rule: Sync_cases)
  case (completed w1 cur eventErr)
  let ?sel = "loadVersionsToApply V vs' (\<not> target < cur) cur target"
  from call completed(4,6) have ne: "?sel \<noteq> []" by (auto simp: in_applied_calls)
  then have "last ?sel \<in> set ?sel" by simp
  moreover have "recorded_after n0 (snd s') = Number V (last ?sel)" for n0
    using completed(4,6) ne by (simp add: recorded_after_applied)
  ultimately show ?thesis using completed(4) by auto
qed (use call in auto)


lemma memApplier_keeps_record:
  "keeps_record (\<lambda>w. w) taggedVersion (NewVersioner memApplier xs)"
  by (simp add: keeps_record_def NewVersioner_def memApplier_def taggedVersion_def script_def
      NoOpListener_On_def)

text \<open>
  Claim C10.  \<^verbatim>\<open>SyncVersion\<close> is never called with the target: every number passed to
  it is the number of a held version that is selected, hence strictly between the
  current version read and the target.  Consequently, after a \<^verbatim>\<open>Sync\<close> that returns
  success and persisted at least one version, the number on record (the argument of
  the last \<^verbatim>\<open>SyncVersion\<close>; with collaborators that keep a record, what the applier
  holds) is strictly between the current version read and the target: strictly
  below the target on an upgrade, strictly above it on a rollback, never equal to it.
\<close>

theorem SyncVersion_never_target:
  assumes sorts: "sort_Slice_sorts sort_Slice V"
    and run: "Sync sort_Slice V v target (w, []) = (r, vs', s')"
  shows "(\<forall>n e. SyncVersionCall n e \<in> set (snd s') \<longrightarrow>
            n \<noteq> target
          \<and> (\<exists>cur x. CurrentVersionCall cur None \<in> set (snd s')
                \<and> x \<in> set (Versions v)
                \<and> x \<in> set (loadVersionsToApply V vs' (\<not> target < cur) cur target)
                \<and> n = Number V x
                \<and> (cur < n \<and> n < target \<or> target < n \<and> n < cur)))
       \<and> (r = None \<and> (\<exists>n e. SyncVersionCall n e \<in> set (snd s')) \<longrightarrow>
            (\<exists>cur m. CurrentVersionCall cur None \<in> set (snd s')
                \<and> (\<forall>n0. recorded_after n0 (snd s') = m)
                \<and> m \<noteq> target
                \<and> (cur < target \<longrightarrow> cur < m \<and> m < target)
                \<and> (target < cur \<longrightarrow> target < m \<and> m < cur)
                \<and> (keeps_record rd V v \<longrightarrow> cur = rd w \<and> rd (fst s') = m)))"
proof (intro conjI allI impI)
  fix n e
  assume call: "SyncVersionCall n e \<in> set (snd s')"
  from Sync_persisted_selected [OF run call] obtain cur x where
    *: "CurrentVersionCall cur None \<in> set (snd s')"
       "vs' = sort_Slice (\<lambda>i j. Number V i < Number V j) (Versions v)"
       "x \<in> set (loadVersionsToApply V vs' (\<not> target < cur) cur target)"
       "n = Number V x" by blast
  from *(3) have win: "x \<in> set vs'" "cur < n \<and> n < target \<or> target < n \<and> n < cur"
    unfolding in_loadVersionsToApply *(4) by simp_all
  from win(1) have "x \<in> set (Versions v)" unfolding *(2) sort_Slice_set [OF sorts] .
  with * win show "\<exists>cur x. CurrentVersionCall cur None \<in> set (snd s')
                \<and> x \<in> set (Versions v)
                \<and> x \<in> set (loadVersionsToApply V vs' (\<not> target < cur) cur target)
                \<and> n = Number V x
                \<and> (cur < n \<and> n < target \<or> target < n \<and> n < cur)" by blast
  from win(2) show "n \<noteq> target" by auto
next
  assume "r = None \<and> (\<exists>n e. SyncVersionCall n e \<in> set (snd s'))"
  then obtain n e where r: "r = None" and call: "SyncVersionCall n e \<in> set (snd s')" by blast
  from run r have run': "Sync sort_Slice V v target (w, []) = (None, vs', s')" by simp
  from Sync_success_recorded [OF run' call] obtain cur x where
    *: "CurrentVersionCall cur None \<in> set (snd s')"
       "x \<in> set (loadVersionsToApply V vs' (\<not> target < cur) cur target)"
       "\<forall>n0. recorded_after n0 (snd s') = Number V x" by blast
  from *(2) have win: "cur < Number V x \<and> Number V x < target \<or> target < Number V x \<and> Number V x < cur"
    unfolding in_loadVersionsToApply by simp
  have rec: "cur = rd w \<and> rd (fst s') = Number V x" if "keeps_record rd V v"
    using Sync_reads_record [OF that run *(1)] Sync_follows [OF that run] *(3) by simp
  from * win rec show "\<exists>cur m. CurrentVersionCall cur None \<in> set (snd s')
                \<and> (\<forall>n0. recorded_after n0 (snd s') = m)
                \<and> m \<noteq> target
                \<and> (cur < target \<longrightarrow> cur < m \<and> m < target)
                \<and> (target < cur \<longrightarrow> target < m \<and> m < cur)
                \<and> (keeps_record rd V v \<longrightarrow> cur = rd w \<and> rd (fst s') = m)"
    by (intro exI [of _ cur] exI [of _ "Number V x"]) auto
qed

text \<open>
  The theorem at the held versions 2, 0, 1 with nothing on record (-1) and target 2,
  on the applier that keeps the number in memory: the run persists 0 and then 1, and
  leaves 1 on record.
\<close>

theorem SyncVersion_never_target_witness:
  "sort_Slice_sorts insertionSort taggedVersion
   \<and> Sync insertionSort taggedVersion
       (NewVersioner memApplier [(2, ''c''), (0, ''a''), (1, ''b'')]) 2 (- 1, [])
     = (None, [(0, ''a''), (1, ''b''), (2, ''c'')], 1,
        [OnCall (Event EventStart None None) None, CurrentVersionCall (- 1) None,
         OnCall (Event EventBeforeSync None None) None,
         OnCall (Event EventBeforeChange (Some (0, ''a'')) None) None,
         UpgradeCall (0, ''a'') None, SyncVersionCall 0 None,
         OnCall (Event EventAfterChange (Some (0, ''a'')) None) None,
         OnCall (Event EventBeforeChange (Some (1, ''b'')) None) None,
         UpgradeCall (1, ''b'') None, SyncVersionCall 1 None,
         OnCall (Event EventAfterChange (Some (1, ''b'')) None) None,
         OnCall (Event EventAfterSync None None) None,
         OnCall (Event EventEnd None None) None])
   \<and> keeps_record (\<lambda>w. w) taggedVersion (NewVersioner memApplier [(2, ''c''), (0, ''a''), (1, ''b'')])
   \<and> (\<exists>m. m \<noteq> 2 \<and> m < 2 \<and> fst (snd (snd (Sync insertionSort taggedVersion
         (NewVersioner memApplier [(2, ''c''), (0, ''a''), (1, ''b'')]) 2 (- 1, [])))) = m)"
proof -
  let ?v = "NewVersioner memApplier [(2, ''c''), (0, ''a''), (1, ''b'')]"
  let ?tr = "[OnCall (Event EventStart None None) None, CurrentVersionCall (- 1) None,
         OnCall (Event EventBeforeSync None None) None,
         OnCall (Event EventBeforeChange (Some (0, ''a'')) None) None,
         UpgradeCall (0, ''a'') None, SyncVersionCall 0 None,
         OnCall (Event EventAfterChange (Some (0, ''a'')) None) None,
         OnCall (Event EventBeforeChange (Some (1, ''b'')) None) None,
         UpgradeCall (1, ''b'') None, SyncVersionCall 1 None,
         OnCall (Event EventAfterChange (Some (1, ''b'')) None) None,
         OnCall (Event EventAfterSync None None) None,
         OnCall (Event EventEnd None None) None] :: (int \<times> string) call list"
  have run: "Sync insertionSort taggedVersion ?v 2 (- 1, [])
     = (None, [(0, ''a''), (1, ''b''), (2, ''c'')], 1, ?tr)"
    by (simp add: run_defs)
  have call: "\<exists>n e. SyncVersionCall n e \<in> set (snd (1::int, ?tr))"
    by (intro exI [of _ 1] exI [of _ None]) simp
  from SyncVersion_never_target [OF insertionSort_sorts run, of "\<lambda>w. w"] call
  have "\<exists>cur m. CurrentVersionCall cur None \<in> set (snd (1::int, ?tr))
                \<and> (\<forall>n0. recorded_after n0 (snd (1::int, ?tr)) = m)
                \<and> m \<noteq> 2
                \<and> (cur < 2 \<longrightarrow> cur < m \<and> m < 2)
                \<and> (2 < cur \<longrightarrow> 2 < m \<and> m < cur)
                \<and> (keeps_record (\<lambda>w. w) taggedVersion ?v \<longrightarrow> cur = - 1 \<and> fst (1::int, ?tr) = m)"
    by blast
  then obtain cur m where cur: "CurrentVersionCall cur None \<in> set (snd (1::int, ?tr))"
    and m: "m \<noteq> 2" "cur < 2 \<longrightarrow> cur < m \<and> m < 2"
      "keeps_record (\<lambda>w. w) taggedVersion ?v \<longrightarrow> cur = - 1 \<and> fst (1::int, ?tr) = m"
    by blast
  from cur have "cur = - 1" by simp
  with m memApplier_keeps_record [of "[(2, ''c''), (0, ''a''), (1, ''b'')]"]
  have "m \<noteq> 2 \<and> m < 2 \<and> fst (snd (snd (Sync insertionSort taggedVersion ?v 2 (- 1, [])))) = m"
    by (simp add: run)
  then show ?thesis
    using insertionSort_sorts [of taggedVersion] run
      memApplier_keeps_record [of "[(2, ''c''), (0, ''a''), (1, ''b'')]"] by blast
qed

subsection \<open>Calling Sync twice\<close>

lemma sorted_last_max:
  "sorted (map f xs) \<Longrightarrow> x \<in> set xs \<Longrightarrow> f x \<le> f (last xs)"
  for f :: "'a \<Rightarrow> int"
proof (induction xs arbitrary: x)
  case Nil
  then show ?case by simp
next
  case (Cons a xs)
  show ?case
  proof (cases "xs = []")
    case True
    then show ?thesis using Cons.prems by simp
  next
    case False
    then have "last xs \<in> set xs" by simp
    then have "f a \<le> f (last xs)" using Cons.prems(1) by auto
    moreover have "f y \<le> f (last xs)" if "y \<in> set xs" for y
      using Cons.IH Cons.prems(1) that by simp
    ultimately show ?thesis using Cons.prems(2) False by auto
  qed
qed

lemma sorted_hd_min:
  "sorted (map f xs) \<Longrightarrow> x \<in> set xs \<Longrightarrow> f (hd xs) \<le> f x"
  for f :: "'a \<Rightarrow> int"
  by (cases xs) auto

text \<open>
  After the last selected version has been persisted, no held version is left
  strictly between the number on record and the target.
\<close>

lemma none_beyond_last_selected:
  assumes srt: "sorted (map (Number V) xs)"
    and ne: "loadVersionsToApply V xs (\<not> target < cur) cur target \<noteq> []"
    and m: "m = Number V (last (loadVersionsToApply V xs (\<not> target < cur) cur target))"
    and x: "x \<in> set xs"
  shows "\<not> (m < Number V x \<and> Number V x < target) \<and> \<not> (target < Number V x \<and> Number V x < m)"
proof (cases "target < cur")
  case True
  let ?sel = "filter (\<lambda>x. Number V x < cur \<and> target < Number V x) xs"
  have sel: "loadVersionsToApply V xs (\<not> target < cur) cur target = rev ?sel"
    using True by (simp add: loadVersionsToApply_rollback)
  with ne have ne': "?sel \<noteq> []" by simp
  then have hd_in: "hd ?sel \<in> set ?sel" by (rule hd_in_set)
  have m': "m = Number V (hd ?sel)" using m sel ne' by (simp add: last_rev)
  from hd_in have bounds: "Number V (hd ?sel) < cur" "target < Number V (hd ?sel)" by auto
  have sorted_sel: "sorted (map (Number V) ?sel)" using srt by (rule sorted_filter)
  have "m \<le> Number V x" if "target < Number V x" "Number V x < m"
  proof -
    from that bounds m' x have "x \<in> set ?sel" by auto
    from sorted_hd_min [OF sorted_sel this] show ?thesis using m' by simp
  qed
  then show ?thesis using bounds m' by auto
next
  case False
  let ?sel = "filter (\<lambda>x. cur < Number V x \<and> Number V x < target) xs"
  have sel: "loadVersionsToApply V xs (\<not> target < cur) cur target = ?sel"
    using False by (simp add: loadVersionsToApply_upgrade)
  with ne have ne': "?sel \<noteq> []" by simp
  then have last_in: "last ?sel \<in> set ?sel" by (rule last_in_set)
  have m': "m = Number V (last ?sel)" using m sel by simp
  from last_in have bounds: "cur < Number V (last ?sel)" "Number V (last ?sel) < target" by auto
  have sorted_sel: "sorted (map (Number V) ?sel)" using srt by (rule sorted_filter)
  have "Number V x \<le> m" if "m < Number V x" "Number V x < target"
  proof -
    from that bounds m' x have "x \<in> set ?sel" by auto
    from sorted_last_max [OF sorted_sel this] show ?thesis using m' by simp
  qed
  then show ?thesis using bounds m' by auto
qed

lemma keeps_record_Versions [simp]:
  "keeps_record rd V (v\<lparr>Versions := xs\<rparr>) = keeps_record rd V v"
  by (simp add: keeps_record_def)

lemma Sync_success_leaves_nothing:
  assumes sorts: "sort_Slice_sorts sort_Slice V"
    and keeps: "keeps_record rd V v"
    and first: "Sync sort_Slice V v target (w, []) = (None, vs1, s1)"
  shows "(rd (fst s1) = target \<longleftrightarrow> rd w = target)
       \<and> set vs1 = set (Versions v)
       \<and> (\<forall>x \<in> set (Versions v).
             \<not> (rd (fst s1) < Number V x \<and> Number V x < target)
           \<and> \<not> (target < Number V x \<and> Number V x < rd (fst s1)))"
proof -
  note follows = Sync_follows [OF keeps first]
  from first show ?thesis
  proof (cases rule: Sync_cases)
    case (up_to_date w1 eventErr)
    have "CurrentVersionCall target None \<in> set (snd s1)" using up_to_date(3) by simp
    from Sync_reads_record [OF keeps first this] have "rd w = target" by simp
    moreover have "rd (fst s1) = rd w" using follows up_to_date(3) by simp
    ultimately show ?thesis using up_to_date(5) by auto
  next
    case (completed w1 cur eventErr)
    let ?sel = "loadVersionsToApply V vs1 (\<not> target < cur) cur target"
    have "CurrentVersionCall cur None \<in> set (snd s1)" using completed(4) by simp
    from Sync_reads_record [OF keeps first this] have cur: "cur = rd w" by simp
    have rec: "rd (fst s1) = (if ?sel = [] then cur else Number V (last ?sel))"
      using follows completed(4,6) cur by (simp add: recorded_after_applied)
    have set_vs1: "set vs1 = set (Versions v)"
      using completed(6) sort_Slice_set [OF sorts] by simp
    have sorted_vs1: "sorted (map (Number V) vs1)"
      using completed(6) sorts by (simp add: sort_Slice_sorts_def)
    show ?thesis
    proof (cases "?sel = []")
      case True
      then have "\<forall>x \<in> set vs1. \<not> (cur < Number V x \<and> Number V x < target)
                              \<and> \<not> (target < Number V x \<and> Number V x < cur)"
        using in_loadVersionsToApply [of _ V vs1 target cur] completed(3) by auto
      then show ?thesis using True rec cur completed(3) set_vs1 by auto
    next
      case False
      then have "last ?sel \<in> set ?sel" by simp
      then have "rd (fst s1) \<noteq> target" using rec False
        unfolding in_loadVersionsToApply by auto
      moreover have "\<not> (rd (fst s1) < Number V x \<and> Number V x < target)
                   \<and> \<not> (target < Number V x \<and> Number V x < rd (fst s1))" if "x \<in> set vs1" for x
        using none_beyond_last_selected [OF sorted_vs1 False _ that, of "rd (fst s1)"] rec False
        by simp
      ultimately show ?thesis using cur completed(3) set_vs1 by auto
    qed
  qed simp_all
qed

text \<open>
  Claim C3, as amended.  With collaborators that keep a record, after a \<^verbatim>\<open>Sync\<close> to
  a target that returned success, a second \<^verbatim>\<open>Sync\<close> to the same target runs no
  script and persists nothing: it calls no \<^verbatim>\<open>Upgrade\<close>, \<^verbatim>\<open>Rollback\<close> or
  \<^verbatim>\<open>SyncVersion\<close>.  When the number on record after the first call is the target,
  the equality check cuts the second call short, and a second call that returns
  success emits the start and end events only.  When it is not, a second call that
  returns success emits start, before-sync, after-sync and end around an empty
  selection.  The number on record is the target after the first call only if it was
  before it, that is, only if the first call was cut short too.
\<close>

theorem Sync_twice:
  assumes sorts: "sort_Slice_sorts sort_Slice V"
    and keeps: "keeps_record rd V v"
    and first: "Sync sort_Slice V v target (w, []) = (None, vs1, s1)"
    and second: "Sync sort_Slice V (v\<lparr>Versions := vs1\<rparr>) target (fst s1, []) = (r2, vs2, s2)"
  shows "filter is_change (snd s2) = []
       \<and> (rd (fst s1) = target \<longleftrightarrow> rd w = target)
       \<and> (r2 = None \<and> rd (fst s1) = target \<longrightarrow>
            snd s2 = [OnCall (Event EventStart None None) None,
                      CurrentVersionCall target None,
                      OnCall (Event EventEnd None None) None])
       \<and> (r2 = None \<and> rd (fst s1) \<noteq> target \<longrightarrow>
            snd s2 = [OnCall (Event EventStart None None) None,
                      CurrentVersionCall (rd (fst s1)) None,
                      OnCall (Event EventBeforeSync None None) None,
                      OnCall (Event EventAfterSync None None) None,
                      OnCall (Event EventEnd None None) None])"
proof -
  let ?v2 = "v\<lparr>Versions := vs1\<rparr>"
  have keeps2: "keeps_record rd V ?v2" using keeps by simp
  from Sync_success_leaves_nothing [OF sorts keeps first]
  have same: "rd (fst s1) = target \<longleftrightarrow> rd w = target"
    and set1: "set vs1 = set (Versions v)"
    and none: "\<forall>x \<in> set (Versions v).
             \<not> (rd (fst s1) < Number V x \<and> Number V x < target)
           \<and> \<not> (target < Number V x \<and> Number V x < rd (fst s1))" by blast+
  have empty: "loadVersionsToApply V (sort_Slice (\<lambda>i j. Number V i < Number V j) (Versions ?v2))
                 (\<not> target < cur) cur target = []" if "cur = rd (fst s1)" for cur
  proof -
    have "x \<notin> set (loadVersionsToApply V (sort_Slice (\<lambda>i j. Number V i < Number V j) (Versions ?v2))
                 (\<not> target < cur) cur target)" for x
      unfolding in_loadVersionsToApply sort_Slice_set [OF sorts] using none set1 that by auto
    then show ?thesis by (meson last_in_set)
  qed
  from second show ?thesis
  proof (cases rule: Sync_cases)
    case (start_refused err)
    then show ?thesis using same by simp
  next
    case (read_failed w1 cur err eventErr)
    then show ?thesis using same by simp
  next
    case (up_to_date w1 eventErr)
    have "CurrentVersionCall target None \<in> set (snd s2)" using up_to_date(3) by simp
    from Sync_reads_record [OF keeps2 second this] have "target = rd (fst s1)" by simp
    then show ?thesis using up_to_date same by auto
  next
    case (before_sync_refused w1 cur err)
    then show ?thesis using same by simp
  next
    case (change_failed w1 cur pre x post tail err)
    have "CurrentVersionCall cur None \<in> set (snd s2)" using change_failed(5) by simp
    from Sync_reads_record [OF keeps2 second this] have "cur = rd (fst s1)" by simp
    from empty [OF this] change_failed(4) show ?thesis by simp
  next
    case (after_sync_refused w1 cur err)
    have "CurrentVersionCall cur None \<in> set (snd s2)" using after_sync_refused(4) by simp
    from Sync_reads_record [OF keeps2 second this] have "cur = rd (fst s1)" by simp
    from empty [OF this] after_sync_refused same show ?thesis by simp
  next
    case (completed w1 cur eventErr)
    have "CurrentVersionCall cur None \<in> set (snd s2)" using completed(4) by simp
    from Sync_reads_record [OF keeps2 second this] have cur: "cur = rd (fst s1)" by simp
    from empty [OF this] completed same cur show ?thesis by auto
  qed
qed

text \<open>
  The theorem at the held versions 2, 0, 1 with nothing on record (-1) and target 2:
  the first call leaves version 1 on record and the versions sorted, and the second
  call changes nothing.
\<close>

theorem Sync_twice_witness:
  "sort_Slice_sorts insertionSort taggedVersion
   \<and> keeps_record (\<lambda>w. w) taggedVersion (NewVersioner memApplier [(2, ''c''), (0, ''a''), (1, ''b'')])
   \<and> fst (Sync insertionSort taggedVersion
        (NewVersioner memApplier [(2, ''c''), (0, ''a''), (1, ''b'')]) 2 (- 1, [])) = None
   \<and> filter is_change (snd (snd (snd (Sync insertionSort taggedVersion
        ((NewVersioner memApplier [(2, ''c''), (0, ''a''), (1, ''b'')])
           \<lparr>Versions := [(0, ''a''), (1, ''b''), (2, ''c'')]\<rparr>) 2 (1, [])))))
     = []"
proof -
  let ?v = "NewVersioner memApplier [(2, ''c''), (0, ''a''), (1, ''b'')]"
  let ?tr = "[OnCall (Event EventStart None None) None, CurrentVersionCall (- 1) None,
         OnCall (Event EventBeforeSync None None) None,
         OnCall (Event EventBeforeChange (Some (0, ''a'')) None) None,
         UpgradeCall (0, ''a'') None, SyncVersionCall 0 None,
         OnCall (Event EventAfterChange (Some (0, ''a'')) None) None,
         OnCall (Event EventBeforeChange (Some (1, ''b'')) None) None,
         UpgradeCall (1, ''b'') None, SyncVersionCall 1 None,
         OnCall (Event EventAfterChange (Some (1, ''b'')) None) None,
         OnCall (Event EventAfterSync None None) None,
         OnCall (Event EventEnd None None) None] :: (int \<times> string) call list"
  have first: "Sync insertionSort taggedVersion ?v 2 (- 1, [])
     = (None, [(0, ''a''), (1, ''b''), (2, ''c'')], (1, ?tr))"
    by (simp add: run_defs)
  obtain r2 vs2 s2 where second: "Sync insertionSort taggedVersion
      (?v\<lparr>Versions := [(0, ''a''), (1, ''b''), (2, ''c'')]\<rparr>) 2 (fst (1::int, ?tr), []) = (r2, vs2, s2)"
    by (metis prod_cases3)
  from Sync_twice [OF insertionSort_sorts memApplier_keeps_record first second]
  have "filter is_change (snd s2) = []" by simp
  moreover from second have "Sync insertionSort taggedVersion
      (?v\<lparr>Versions := [(0, ''a''), (1, ''b''), (2, ''c'')]\<rparr>) 2 (1, []) = (r2, vs2, s2)" by simp
  ultimately show ?thesis
    using insertionSort_sorts [of taggedVersion] first
      memApplier_keeps_record [of "[(2, ''c''), (0, ''a''), (1, ''b'')]"] by simp
qed

text \<open>
  Claim C3 as stated fails: with the held versions 0, 1, 2, nothing on record (-1) and
  target 2, the first call upgrades to 0 and 1 and leaves 1 on record.  The second
  call reads 1, which is not the target 2, so the equality check does not cut it
  short: it emits the before-sync and after-sync events between start and end.
\<close>

theorem Sync_twice_not_short_circuited_counterexample:
  "Sync insertionSort taggedVersion
     (NewVersioner memApplier [(0, ''a''), (1, ''b''), (2, ''c'')]) 2 (- 1, [])
   = (None, [(0, ''a''), (1, ''b''), (2, ''c'')], 1,
      [OnCall (Event EventStart None None) None, CurrentVersionCall (- 1) None,
       OnCall (Event EventBeforeSync None None) None,
       OnCall (Event EventBeforeChange (Some (0, ''a'')) None) None,
       UpgradeCall (0, ''a'') None, SyncVersionCall 0 None,
       OnCall (Event EventAfterChange (Some (0, ''a'')) None) None,
       OnCall (Event EventBeforeChange (Some (1, ''b'')) None) None,
       UpgradeCall (1, ''b'') None, SyncVersionCall 1 None,
       OnCall (Event EventAfterChange (Some (1, ''b'')) None) None,
       OnCall (Event EventAfterSync None None) None,
       OnCall (Event EventEnd None None) None])
   \<and> Sync insertionSort taggedVersion
       (NewVersioner memApplier [(0, ''a''), (1, ''b''), (2, ''c'')]) 2 (1, [])
     = (None, [(0, ''a''), (1, ''b''), (2, ''c'')], 1,
        [OnCall (Event EventStart None None) None, CurrentVersionCall 1 None,
         OnCall (Event EventBeforeSync None None) None,
         OnCall (Event EventAfterSync None None) None,
         OnCall (Event EventEnd None None) None])"
  by (simp add: run_defs)

subsection \<open>The broadcast listener\<close>

lemma broadcast_loop_log:
  assumes "broadcast_loop ls i event (w, log) = (r, w', log')"
  shows "\<exists>k. log' = log @ map (\<lambda>j. (j, event, None)) [i..<i + k]
                     @ (case r of None \<Rightarrow> [] | Some err \<Rightarrow> [(i + k, event, Some err)])
           \<and> (case r of None \<Rightarrow> k = length ls | Some err \<Rightarrow> k < length ls)"
  using assms
proof (induction ls arbitrary: i w log)
  case Nil
  then show ?case by simp
next
  case (Cons l ls)
  obtain r1 w1 where one: "l event w = (r1, w1)" by (cases "l event w")
  show ?case
  proof (cases r1)
    case (Some err)
    then have "r = Some err" "log' = log @ [(i, event, Some err)]"
      using Cons.prems one by auto
    then show ?thesis by (intro exI [of _ 0]) simp
  next
    case None
    then have "broadcast_loop ls (Suc i) event (w1, log @ [(i, event, None)]) = (r, w', log')"
      using Cons.prems one by simp
    from Cons.IH [OF this] obtain k where
      k: "log' = (log @ [(i, event, None)]) @ map (\<lambda>j. (j, event, None)) [Suc i..<Suc i + k]
                     @ (case r of None \<Rightarrow> [] | Some err \<Rightarrow> [(Suc i + k, event, Some err)])"
         "case r of None \<Rightarrow> k = length ls | Some err \<Rightarrow> k < length ls" by blast
    have u: "[i..<i + Suc k] = i # [Suc i..<Suc i + k]"
      by (simp add: upt_conv_Cons del: upt_Suc)
    have "log' = log @ map (\<lambda>j. (j, event, None)) [i..<i + Suc k]
                     @ (case r of None \<Rightarrow> [] | Some err \<Rightarrow> [(i + Suc k, event, Some err)])"
      unfolding u using k(1) by (cases r) (simp_all del: upt_Suc)
    moreover have "case r of None \<Rightarrow> Suc k = length (l # ls) | Some err \<Rightarrow> Suc k < length (l # ls)"
      using k(2) by (cases r) simp_all
    ultimately show ?thesis by blast
  qed
qed

text \<open>What the logged invocations returned is what the sub-listeners return, run in sequence.\<close>

lemma broadcast_loop_run:
  assumes "broadcast_loop ls i event (w, log) = (r, w', log')"
  shows "\<exists>ws. length ws = length log' - length log + 1 \<and> hd ws = w \<and> last ws = w'
           \<and> length log \<le> length log'
           \<and> (\<forall>j < length log' - length log.
                 (ls ! j) event (ws ! j) = (snd (snd (log' ! (length log + j))), ws ! Suc j))"
  using assms
proof (induction ls arbitrary: i w log)
  case Nil
  then show ?case by (intro exI [of _ "[w]"]) simp
next
  case (Cons l ls)
  obtain r1 w1 where one: "l event w = (r1, w1)" by (cases "l event w")
  show ?case
  proof (cases r1)
    case (Some err)
    then have "r = Some err" "log' = log @ [(i, event, Some err)]" "w' = w1"
      using Cons.prems one by auto
    then show ?thesis using one Some by (intro exI [of _ "[w, w1]"]) (simp add: nth_append)
  next
    case None
    let ?log1 = "log @ [(i, event, None)]"
    from None have rest: "broadcast_loop ls (Suc i) event (w1, ?log1) = (r, w', log')"
      using Cons.prems one by simp
    from Cons.IH [OF rest] obtain ws where
      ws: "length ws = length log' - length ?log1 + 1" "hd ws = w1" "last ws = w'"
        "length ?log1 \<le> length log'"
        "\<forall>j < length log' - length ?log1.
            (ls ! j) event (ws ! j) = (snd (snd (log' ! (length ?log1 + j))), ws ! Suc j)" by blast
    from broadcast_loop_log [OF rest] have pre: "take (length ?log1) log' = ?log1" by auto
    have at: "log' ! length log = (i, event, None)"
    proof -
      have "log' ! length log = take (length ?log1) log' ! length log" using ws(4) by simp
      then show ?thesis unfolding pre by simp
    qed
    have ne: "ws \<noteq> []" using ws(1) by auto
    have "length (w # ws) = length log' - length log + 1" using ws(1,4) by simp
    moreover have "hd (w # ws) = w" by simp
    moreover have "last (w # ws) = w'" using ws(3) ne by simp
    moreover have "length log \<le> length log'" using ws(4) by simp
    moreover have "((l # ls) ! j) event ((w # ws) ! j)
        = (snd (snd (log' ! (length log + j))), (w # ws) ! Suc j)"
      if "j < length log' - length log" for j
    proof (cases j)
      case 0
      then show ?thesis using one None at ws(2) ne by (simp add: hd_conv_nth)
    next
      case (Suc j')
      then have "j' < length log' - length ?log1" using that by simp
      with ws(5) Suc show ?thesis by simp
    qed
    ultimately show ?thesis by blast
  qed
qed


text \<open>
  Claim C9.  For every event and every sequence of sub-listeners, \<^verbatim>\<open>On\<close> invokes the
  sub-listeners in sequence order, each on the world the one before it left.  If
  all of them succeed, all of them are invoked and \<^verbatim>\<open>On\<close> returns success.
  Otherwise the invocations are those of the sub-listeners before the first one that
  fails, all successful, followed by the failing one: \<^verbatim>\<open>On\<close> returns its error, and
  no later sub-listener is invoked.
\<close>

theorem EventBroadcastListener_On_stops_at_first_failure:
  assumes "EventBroadcastListener_On_logged l event w = (r, w', invoked)"
  shows "EventBroadcastListener_On l event w = (r, w')
       \<and> (r = None \<longrightarrow> invoked = map (\<lambda>j. (j, event, None)) [0..<length (Listeners l)])
       \<and> (\<forall>err. r = Some err \<longrightarrow>
             (\<exists>k < length (Listeners l).
                invoked = map (\<lambda>j. (j, event, None)) [0..<k] @ [(k, event, Some err)]))
       \<and> (\<exists>ws. length ws = length invoked + 1 \<and> hd ws = w \<and> last ws = w'
              \<and> (\<forall>j < length invoked.
                    (Listeners l ! j) event (ws ! j) = (snd (snd (invoked ! j)), ws ! Suc j)))"
proof -
  from assms have loop: "broadcast_loop (Listeners l) 0 event (w, []) = (r, w', invoked)"
    by (simp add: EventBroadcastListener_On_logged_def)
  have 1: "EventBroadcastListener_On l event w = (r, w')"
    using assms by (simp add: EventBroadcastListener_On_def)
  from broadcast_loop_log [OF loop] obtain k where
    k: "invoked = [] @ map (\<lambda>j. (j, event, None)) [0..<0 + k]
                   @ (case r of None \<Rightarrow> [] | Some err \<Rightarrow> [(0 + k, event, Some err)])"
       "case r of None \<Rightarrow> k = length (Listeners l) | Some err \<Rightarrow> k < length (Listeners l)"
    by blast
  have 2: "invoked = map (\<lambda>j. (j, event, None)) [0..<length (Listeners l)]" if "r = None"
    using k that by simp
  have 3: "\<exists>k < length (Listeners l).
             invoked = map (\<lambda>j. (j, event, None)) [0..<k] @ [(k, event, Some err)]"
    if "r = Some err" for err
    using k that by auto
  from broadcast_loop_run [OF loop]
  have 4: "\<exists>ws. length ws = length invoked + 1 \<and> hd ws = w \<and> last ws = w'
              \<and> (\<forall>j < length invoked.
                    (Listeners l ! j) event (ws ! j) = (snd (snd (invoked ! j)), ws ! Suc j))"
    by simp
  from 1 2 3 4 show ?thesis by blast
qed

text \<open>
  The theorem at three sub-listeners of which the second refuses the start event:
  the first two see the event, the third does not, and the error is the second's.
\<close>

theorem EventBroadcastListener_On_stops_at_first_failure_witness:
  "EventBroadcastListener_On_logged
     \<lparr>Listeners = [namedListener ''a'' EventEnd, namedListener ''b'' EventStart,
                   namedListener ''c'' EventEnd]\<rparr>
     (Event EventStart (None :: nat option) None) []
   = (Some (errorString ''b''), [''a'', ''b''],
      [(0, Event EventStart None None, None),
       (1, Event EventStart None None, Some (errorString ''b''))])
   \<and> EventBroadcastListener_On
       \<lparr>Listeners = [namedListener ''a'' EventEnd, namedListener ''b'' EventStart,
                     namedListener ''c'' EventEnd]\<rparr>
       (Event EventStart (None :: nat option) None) []
     = (Some (errorString ''b''), [''a'', ''b''])"
proof -
  let ?l = "\<lparr>Listeners = [namedListener ''a'' EventEnd, namedListener ''b'' EventStart,
                   namedListener ''c'' EventEnd]\<rparr> :: (nat, string list) EventBroadcastListener"
  have run: "EventBroadcastListener_On_logged ?l (Event EventStart None None) []
   = (Some (errorString ''b''), [''a'', ''b''],
      [(0, Event EventStart None None, None),
       (1, Event EventStart None None, Some (errorString ''b''))])"
    by (simp add: EventBroadcastListener_On_logged_def namedListener_def)
  from EventBroadcastListener_On_stops_at_first_failure [OF run]
  have "EventBroadcastListener_On ?l (Event EventStart None None) []
     = (Some (errorString ''b''), [''a'', ''b''])" by blast
  with run show ?thesis by simp
qed

subsection \<open>The transactional listener\<close>

text \<open>
  Claim C8 does not hold of the code.  On a before-change event the body of \<^verbatim>\<open>On\<close>
  begins a transaction and stores it in its receiver, but the receiver is a copy:
  after the call the listener still holds no transaction.  On the after-change event
  that follows (and likewise on an error-during-change event) the listener calls
  \<^verbatim>\<open>Commit\<close> (or \<^verbatim>\<open>Rollback\<close>) on the nil transaction, which panics, and the
  transaction that was begun is neither committed nor rolled back.
\<close>

theorem TransactionalChangesListener_On_drops_transaction:
  "TransactionalChangesListener_On_body \<lparr>DB = logDB, currentTransaction = None\<rparr>
     (Event EventBeforeChange (Some (1 :: int, ''a'')) None) []
   = (Returns None, \<lparr>DB = logDB, currentTransaction = Some 0\<rparr>, [Begun 0])
   \<and> TransactionalChangesListener_On \<lparr>DB = logDB, currentTransaction = None\<rparr>
       (Event EventBeforeChange (Some (1 :: int, ''a'')) None) []
     = (Returns None, \<lparr>DB = logDB, currentTransaction = None\<rparr>, [Begun 0])
   \<and> TransactionalChangesListener_On \<lparr>DB = logDB, currentTransaction = None\<rparr>
       (Event EventAfterChange (Some (1 :: int, ''a'')) None) [Begun 0]
     = (Panics, \<lparr>DB = logDB, currentTransaction = None\<rparr>, [Begun 0])
   \<and> TransactionalChangesListener_On \<lparr>DB = logDB, currentTransaction = None\<rparr>
       (Event EventErrorDuringChange (Some (1 :: int, ''a'')) (Some (errorString ''boom''))) [Begun 0]
     = (Panics, \<lparr>DB = logDB, currentTransaction = None\<rparr>, [Begun 0])"
  by (simp add: TransactionalChangesListener_On_def TransactionalChangesListener_On_body_def logDB_def)

subsection \<open>A failing upgrade\<close>

lemma digit_char_cases:
  assumes "n < 10"
  shows "is_digit (digit_char n) \<and> digit_value (digit_char n) = n \<and> digit_char n \<noteq> CHR ''-''"
proof -
  from assms have "n \<in> {0, 1, 2, 3, 4, 5, 6, 7, 8, 9}" by auto
  then show ?thesis
    by (auto simp: digit_char_def is_digit_def digit_value_def)
qed

lemma decimal_snoc: "decimal (s @ [c]) = 10 * decimal s + digit_value c"
  by (simp add: decimal_def)

lemma utoa_digits: "utoa n \<noteq> [] \<and> (\<forall>c \<in> set (utoa n). is_digit c \<and> c \<noteq> CHR ''-'')"
proof (induction n rule: utoa.induct)
  case (1 n)
  show ?case
  proof (cases "n < 10")
    case True
    then show ?thesis using digit_char_cases [of n] by (simp add: utoa.simps [of n])
  next
    case False
    have "n mod 10 < 10" by simp
    from digit_char_cases [OF this] 1 False show ?thesis
      by (auto simp: utoa.simps [of n])
  qed
qed

lemma decimal_utoa: "decimal (utoa n) = n"
proof (induction n rule: utoa.induct)
  case (1 n)
  show ?case
  proof (cases "n < 10")
    case True
    then show ?thesis using digit_char_cases [of n]
      by (simp add: utoa.simps [of n] decimal_def)
  next
    case False
    have "n mod 10 < 10" by simp
    from digit_char_cases [OF this] have "digit_value (digit_char (n mod 10)) = n mod 10" by simp
    moreover have "decimal (utoa (n div 10)) = n div 10" using 1 False by simp
    ultimately show ?thesis using False
      by (simp add: utoa.simps [of n] decimal_snoc)
  qed
qed

lemma atoi_itoa: "atoi (itoa i) = i"
proof (cases "i < 0")
  case True
  then show ?thesis by (simp add: itoa_def atoi_def decimal_utoa)
next
  case False
  obtain c ds where u: "utoa (nat i) = c # ds" using utoa_digits [of "nat i"] by (cases "utoa (nat i)") auto
  with utoa_digits [of "nat i"] have "c \<noteq> CHR ''-''" by auto
  moreover have "decimal (c # ds) = nat i" using decimal_utoa [of "nat i"] u by simp
  ultimately show ?thesis using False u by (simp add: itoa_def atoi_def)
qed

lemma itoa_chars: "\<forall>c \<in> set (itoa i). c = CHR ''-'' \<or> is_digit c"
  using utoa_digits by (auto simp: itoa_def)

lemma read_number_itoa:
  assumes "rest = [] \<or> \<not> (hd rest = CHR ''-'' \<or> is_digit (hd rest))"
  shows "read_number (itoa i @ rest) = i"
proof -
  have "takeWhile (\<lambda>c. c = CHR ''-'' \<or> is_digit c) (itoa i @ rest) = itoa i"
    using assms itoa_chars [of i] by (cases rest) (auto simp: takeWhile_append2)
  then show ?thesis by (simp add: read_number_def atoi_itoa)
qed

lemma change_error_names_number:
  "read_number (drop (length what) (err_Error (change_error what n err eventErr))) = n"
proof (cases eventErr)
  case None
  have "read_number (itoa n @ '': '' @ err_Error err) = n"
    by (rule read_number_itoa) (simp add: is_digit_def)
  then show ?thesis using None by (simp add: change_error_def)
next
  case (Some e)
  have "read_number (itoa n @ '' (event error: '' @ err_Error e @ ''): '' @ err_Error err) = n"
    by (rule read_number_itoa) (simp add: is_digit_def)
  then show ?thesis using Some by (simp add: change_error_def)
qed

lemma replay_append:
  "replay V v (xs @ ys) w = (case replay V v xs w of None \<Rightarrow> None | Some w' \<Rightarrow> replay V v ys w')"
proof (induction xs arbitrary: w)
  case Nil
  then show ?case by simp
next
  case (Cons c xs)
  then show ?case by (cases c) (simp_all split: prod.splits)
qed

lemma call_On_replay:
  assumes "replay V v (snd s) w0 = Some (fst s)"
    and "call_On (Listener v) event s = (r, s')"
  shows "replay V v (snd s') w0 = Some (fst s')"
  using assms by (auto simp: call_On_def replay_append split: prod.splits)

lemma call_CurrentVersion_replay:
  assumes "replay V v (snd s) w0 = Some (fst s)"
    and "call_CurrentVersion (Applier v) s = (r, s')"
  shows "replay V v (snd s') w0 = Some (fst s')"
  using assms by (auto simp: call_CurrentVersion_def replay_append split: prod.splits)

lemma call_SyncVersion_replay:
  assumes "replay V v (snd s) w0 = Some (fst s)"
    and "call_SyncVersion (Applier v) n s = (r, s')"
  shows "replay V v (snd s') w0 = Some (fst s')"
  using assms by (auto simp: call_SyncVersion_def replay_append split: prod.splits)

lemma call_action_replay:
  assumes "replay V v (snd s) w0 = Some (fst s)"
    and "(if upgrade then call_Upgrade V x s else call_Rollback V x s) = (r, s')"
  shows "replay V v (snd s') w0 = Some (fst s')"
  using assms
  by (auto simp: call_Upgrade_def call_Rollback_def replay_append split: prod.splits if_splits)

lemma change_failed_replay:
  assumes "replay V v (snd s) w0 = Some (fst s)"
    and "change_failed what V v x err s = (r, s')"
  shows "replay V v (snd s') w0 = Some (fst s')"
  using assms
  by (auto simp: change_failed_def split: prod.splits dest: call_On_replay)

lemma persist_change_replay:
  assumes inv: "replay V v (snd s) w0 = Some (fst s)"
    and run: "persist_change V v x s = (r, s')"
  shows "replay V v (snd s') w0 = Some (fst s')"
proof -
  obtain r1 s1 where c1: "call_SyncVersion (Applier v) (Number V x) s = (r1, s1)"
    by (cases "call_SyncVersion (Applier v) (Number V x) s")
  note i1 = call_SyncVersion_replay [OF inv c1]
  show ?thesis
  proof (cases r1)
    case (Some err)
    then have "change_failed ''sync version to '' V v x err s1 = (r, s')"
      using run c1 by (simp add: persist_change_def)
    from change_failed_replay [OF i1 this] show ?thesis .
  next
    case None
    obtain r2 s2 where c2: "call_On (Listener v) (Event EventAfterChange (Some x) None) s1 = (r2, s2)"
      by (cases "call_On (Listener v) (Event EventAfterChange (Some x) None) s1")
    then have "s' = s2" using run c1 None by (simp add: persist_change_def split: option.splits)
    with call_On_replay [OF i1 c2] show ?thesis by simp
  qed
qed

lemma apply_version_replay:
  assumes inv: "replay V v (snd s) w0 = Some (fst s)"
    and run: "apply_version V v upgrade x s = (r, s')"
  shows "replay V v (snd s') w0 = Some (fst s')"
proof -
  obtain r1 s1 where c1: "call_On (Listener v) (Event EventBeforeChange (Some x) None) s = (r1, s1)"
    by (cases "call_On (Listener v) (Event EventBeforeChange (Some x) None) s")
  note i1 = call_On_replay [OF inv c1]
  show ?thesis
  proof (cases r1)
    case (Some err)
    then have "s' = s1" using run c1 by (simp add: apply_version_def)
    with i1 show ?thesis by simp
  next
    case None
    obtain r2 s2 where c2: "(if upgrade then call_Upgrade V x s1 else call_Rollback V x s1) = (r2, s2)"
      by (cases "if upgrade then call_Upgrade V x s1 else call_Rollback V x s1")
    note i2 = call_action_replay [OF i1 c2]
    show ?thesis
    proof (cases r2)
      case (Some err)
      then have "change_failed (if upgrade then ''upgrade to version '' else ''rollback to version '') V v x err s2 = (r, s')"
        using run c1 None c2 by (auto simp: apply_version_def split: if_splits)
      from change_failed_replay [OF i2 this] show ?thesis .
    next
      case None2: None
      then have "persist_change V v x s2 = (r, s')"
        using run c1 None c2 by (auto simp: apply_version_def split: if_splits)
      from persist_change_replay [OF i2 this] show ?thesis .
    qed
  qed
qed

lemma apply_versions_replay:
  assumes "replay V v (snd s) w0 = Some (fst s)"
    and "apply_versions V v upgrade xs s = (r, s')"
  shows "replay V v (snd s') w0 = Some (fst s')"
  using assms
proof (induction xs arbitrary: s)
  case Nil
  then show ?case by simp
next
  case (Cons a xs)
  obtain r1 s1 where one: "apply_version V v upgrade a s = (r1, s1)"
    by (cases "apply_version V v upgrade a s")
  note i1 = apply_version_replay [OF Cons.prems(1) one]
  show ?case
  proof (cases r1)
    case (Some err)
    then have "s' = s1" using Cons.prems(2) one by simp
    with i1 show ?thesis by simp
  next
    case None
    then have "apply_versions V v upgrade xs s1 = (r, s')" using Cons.prems(2) one by simp
    from Cons.IH [OF i1 this] show ?thesis .
  qed
qed

text \<open>The world after a run is the world that the logged calls, made in order, leave.\<close>

lemma Sync_replay:
  assumes run: "Sync sort_Slice V v target (w, []) = (r, vs', s')"
  shows "replay V v (snd s') w = Some (fst s')"
proof -
  have i0: "replay V v (snd (w, [])) w = Some (fst (w, []))" by simp
  obtain r1 s1 where c1: "call_On (Listener v) (Event EventStart None None) (w, []) = (r1, s1)"
    by (cases "call_On (Listener v) (Event EventStart None None) (w, [])")
  note i1 = call_On_replay [OF i0 c1]
  show ?thesis
  proof (cases r1)
    case (Some err)
    then have "s' = s1" using run c1 by (simp add: Sync_def)
    with i1 show ?thesis by simp
  next
    case None
    obtain cur r2 s2 where c2: "Versioner_CurrentVersion v s1 = ((cur, r2), s2)"
      by (cases "Versioner_CurrentVersion v s1") auto
    then have c2': "call_CurrentVersion (Applier v) s1 = ((cur, r2), s2)"
      by (simp add: Versioner_CurrentVersion_def)
    note i2 = call_CurrentVersion_replay [OF i1 c2']
    show ?thesis
    proof (cases r2)
      case (Some err)
      obtain r3 s3 where c3: "call_On (Listener v) (Event EventError None (Some err)) s2 = (r3, s3)"
        by (cases "call_On (Listener v) (Event EventError None (Some err)) s2")
      then have "s' = s3" using run c1 None c2 Some by (simp add: Sync_def split: option.splits)
      with call_On_replay [OF i2 c3] show ?thesis by simp
    next
      case None2: None
      show ?thesis
      proof (cases "cur = target")
        case True
        obtain r3 s3 where c3: "call_On (Listener v) (Event EventEnd None None) s2 = (r3, s3)"
          by (cases "call_On (Listener v) (Event EventEnd None None) s2")
        then have "s' = s3" using run c1 None c2 None2 True by (simp add: Sync_def split: option.splits)
        with call_On_replay [OF i2 c3] show ?thesis by simp
      next
        case False
        let ?sorted = "sort_Slice (\<lambda>i j. Number V i < Number V j) (Versions v)"
        let ?up = "\<not> target < cur"
        let ?sel = "loadVersionsToApply V ?sorted ?up cur target"
        have up: "(if target < cur then False else True) = ?up" by simp
        obtain r3 s3 where c3: "call_On (Listener v) (Event EventBeforeSync None None) s2 = (r3, s3)"
          by (cases "call_On (Listener v) (Event EventBeforeSync None None) s2")
        note i3 = call_On_replay [OF i2 c3]
        show ?thesis
        proof (cases r3)
          case (Some err)
          then have "s' = s3" using run c1 None c2 None2 False c3 by (simp add: Sync_def Let_def)
          with i3 show ?thesis by simp
        next
          case None3: None
          obtain r4 s4 where c4: "apply_versions V v ?up ?sel s3 = (r4, s4)"
            by (cases "apply_versions V v ?up ?sel s3")
          note i4 = apply_versions_replay [OF i3 c4]
          show ?thesis
          proof (cases r4)
            case (Some err)
            then have "s' = s4" using run c1 None c2 None2 False c3 None3 c4
              by (simp add: Sync_def Let_def up)
            with i4 show ?thesis by simp
          next
            case None4: None
            obtain r5 s5 where c5: "call_On (Listener v) (Event EventAfterSync None None) s4 = (r5, s5)"
              by (cases "call_On (Listener v) (Event EventAfterSync None None) s4")
            note i5 = call_On_replay [OF i4 c5]
            show ?thesis
            proof (cases r5)
              case (Some err)
              then have "s' = s5" using run c1 None c2 None2 False c3 None3 c4 None4 c5
                by (simp add: Sync_def Let_def up)
              with i5 show ?thesis by simp
            next
              case None5: None
              obtain r6 s6 where c6: "call_On (Listener v) (Event EventEnd None None) s5 = (r6, s6)"
                by (cases "call_On (Listener v) (Event EventEnd None None) s5")
              then have "s' = s6" using run c1 None c2 None2 False c3 None3 c4 None4 c5 None5
                by (simp add: Sync_def Let_def up split: option.splits)
              with call_On_replay [OF i5 c6] show ?thesis by simp
            qed
          qed
        qed
      qed
    qed
  qed
qed

lemma structApplier_keeps_record:
  "keeps_record fst structVersion (NewVersioner structApplier xs)"
  by (simp add: keeps_record_def NewVersioner_def structApplier_def structVersion_def
      NoOpListener_On_def)

lemmas struct_defs = Sync_def Versioner_CurrentVersion_def call_On_def call_CurrentVersion_def
  call_SyncVersion_def call_Upgrade_def call_Rollback_def apply_version_def persist_change_def
  change_failed_def change_error_def Errorf_event_def loadVersionsToApply_def
  NewVersioner_def NoOpListener_On_def structApplier_def structVersion_def
  itoa_def utoa.simps digit_char_def

text \<open>
  Claim C6.  When the upgrade action of a selected version fails, the calls of the
  run are: the start event, the read of the current version, the before-sync event;
  then, for each selected version before the failing one, its before-change event,
  its \<^verbatim>\<open>Upgrade()\<close>, the \<^verbatim>\<open>SyncVersion\<close> of its number and its after-change event,
  all successful; then the before-change event and the failed \<^verbatim>\<open>Upgrade()\<close> of the
  failing version and the error-during-change event; and nothing else.  The world
  that the run leaves is the world that exactly these calls, made in this order,
  leave: the upgrades of the versions before the failing one have taken effect and
  nothing undoes them, no action of a later selected version has touched the world,
  and with collaborators that keep a record the number on record is that of the
  last version before the failing one (the number read at the start when there is
  none).  The error returned starts with \<^verbatim>\<open>upgrade to version\<close> followed by the
  number of the failing version in decimal, so that the number read back from the
  message is that number, and it wraps the error of the action.
\<close>

theorem Sync_upgrade_fails:
  assumes run: "Sync sort_Slice V v target (w, []) = (r, vs', s')"
    and fails: "UpgradeCall x (Some err) \<in> set (snd s')"
  shows "\<exists>cur pre post eventErr.
           cur < target
         \<and> versions_between V cur target vs' = pre @ x # post
         \<and> snd s' = [OnCall (Event EventStart None None) None, CurrentVersionCall cur None,
                      OnCall (Event EventBeforeSync None None) None]
                     @ concat (map (\<lambda>y. [OnCall (Event EventBeforeChange (Some y) None) None,
                                           UpgradeCall y None,
                                           SyncVersionCall (Number V y) None,
                                           OnCall (Event EventAfterChange (Some y) None) None]) pre)
                     @ [OnCall (Event EventBeforeChange (Some x) None) None,
                        UpgradeCall x (Some err),
                        OnCall (Event EventErrorDuringChange (Some x) (Some err)) eventErr]
         \<and> replay V v (snd s') w = Some (fst s')
         \<and> (keeps_record rd V v \<longrightarrow>
               cur = rd w \<and> rd (fst s') = (if pre = [] then rd w else Number V (last pre)))
         \<and> r = Some (change_error ''upgrade to version '' (Number V x) err eventErr)
         \<and> prefix (''upgrade to version '' @ itoa (Number V x))
              (err_Error (change_error ''upgrade to version '' (Number V x) err eventErr))
         \<and> read_number (drop (length ''upgrade to version '')
              (err_Error (change_error ''upgrade to version '' (Number V x) err eventErr)))
             = Number V x
         \<and> err_Unwrap (change_error ''upgrade to version '' (Number V x) err eventErr) = Some err"
  using run
proof (cases rule: Sync_cases)
  case (change_failed w1 cur pre x' post tail err')
  from fails change_failed(5) have "UpgradeCall x (Some err) \<in> set tail"
    by (auto simp: in_applied_calls)
  with change_failed(6) obtain eventErr where
    up: "\<not> target < cur" and x': "x' = x"
    and tail: "tail = [OnCall (Event EventBeforeChange (Some x) None) None,
                       UpgradeCall x (Some err),
                       OnCall (Event EventErrorDuringChange (Some x) (Some err)) eventErr]"
    and err': "err' = change_error ''upgrade to version '' (Number V x) err eventErr"
    by (auto simp: failed_calls.simps)
  have lt: "cur < target" using up change_failed(3) by simp
  have sel: "versions_between V cur target vs' = pre @ x # post"
    using change_failed(4,8) up x' by (simp add: loadVersionsToApply_upgrade versions_between_def)
  have blocks: "applied_calls V (\<not> target < cur)
      = (\<lambda>y. [OnCall (Event EventBeforeChange (Some y) None) None, UpgradeCall y None,
               SyncVersionCall (Number V y) None, OnCall (Event EventAfterChange (Some y) None) None])"
    using up by (simp add: applied_calls_def fun_eq_iff)
  have tr: "snd s' = [OnCall (Event EventStart None None) None, CurrentVersionCall cur None,
                      OnCall (Event EventBeforeSync None None) None]
                     @ concat (map (\<lambda>y. [OnCall (Event EventBeforeChange (Some y) None) None,
                                           UpgradeCall y None,
                                           SyncVersionCall (Number V y) None,
                                           OnCall (Event EventAfterChange (Some y) None) None]) pre)
                     @ [OnCall (Event EventBeforeChange (Some x) None) None,
                        UpgradeCall x (Some err),
                        OnCall (Event EventErrorDuringChange (Some x) (Some err)) eventErr]"
    using change_failed(5) tail blocks by simp
  have rp: "replay V v (snd s') w = Some (fst s')"
    by (rule Sync_replay [OF run])
  have rec: "cur = rd w \<and> rd (fst s') = (if pre = [] then rd w else Number V (last pre))"
    if keeps: "keeps_record rd V v"
  proof -
    have "CurrentVersionCall cur None \<in> set (snd s')" using tr by simp
    from Sync_reads_record [OF keeps run this] have cur: "cur = rd w" by simp
    have "recorded_after (rd w) (snd s') = (if pre = [] then rd w else Number V (last pre))"
      using change_failed(5) tail by (simp add: recorded_after_applied)
    with Sync_follows [OF keeps run] cur show ?thesis by simp
  qed
  have r: "r = Some (change_error ''upgrade to version '' (Number V x) err eventErr)"
    using change_failed(7) err' by simp
  have p: "prefix (''upgrade to version '' @ itoa (Number V x))
              (err_Error (change_error ''upgrade to version '' (Number V x) err eventErr))"
    by (rule change_error_prefix)
  have n: "read_number (drop (length ''upgrade to version '')
              (err_Error (change_error ''upgrade to version '' (Number V x) err eventErr)))
             = Number V x"
    by (rule change_error_names_number)
  have u: "err_Unwrap (change_error ''upgrade to version '' (Number V x) err eventErr) = Some err"
    by (rule change_error_Unwrap)
  from lt sel tr rp rec r p n u show ?thesis by blast
qed (use fails in \<open>auto simp: in_applied_calls\<close>)

text \<open>
  The theorem at the scenario of the claim, with scripts that change the structure:
  versions 1, 2, 3, version 0 on record, nothing applied, target 4, and the upgrade of
  version 2 fails.  The run leaves version 1 on record and version 1 alone applied,
  version 3 is never attempted, and the error is \<^verbatim>\<open>upgrade to version 2: boom\<close>.
\<close>

theorem Sync_upgrade_fails_witness:
  "UpgradeCall (2, ''bad'') (Some (errorString ''boom''))
     \<in> set (snd (snd (snd (Sync insertionSort structVersion
          (NewVersioner structApplier [(1, ''a''), (2, ''bad''), (3, ''c'')]) 4 ((0, []), [])))))
   \<and> Sync insertionSort structVersion
       (NewVersioner structApplier [(1, ''a''), (2, ''bad''), (3, ''c'')]) 4 ((0, []), [])
     = (Some (wrapError ''upgrade to version 2: boom'' (errorString ''boom'')),
        [(1, ''a''), (2, ''bad''), (3, ''c'')], (1, [(1, ''a'')]),
        [OnCall (Event EventStart None None) None, CurrentVersionCall 0 None,
         OnCall (Event EventBeforeSync None None) None,
         OnCall (Event EventBeforeChange (Some (1, ''a'')) None) None,
         UpgradeCall (1, ''a'') None, SyncVersionCall 1 None,
         OnCall (Event EventAfterChange (Some (1, ''a'')) None) None,
         OnCall (Event EventBeforeChange (Some (2, ''bad'')) None) None,
         UpgradeCall (2, ''bad'') (Some (errorString ''boom'')),
         OnCall (Event EventErrorDuringChange (Some (2, ''bad'')) (Some (errorString ''boom''))) None])
   \<and> keeps_record fst structVersion (NewVersioner structApplier [(1, ''a''), (2, ''bad''), (3, ''c'')])
   \<and> read_number (drop (length ''upgrade to version '')
        (err_Error (wrapError ''upgrade to version 2: boom'' (errorString ''boom'')))) = 2"
proof -
  let ?v = "NewVersioner structApplier [(1, ''a''), (2, ''bad''), (3, ''c'')]"
  have run: "Sync insertionSort structVersion ?v 4 ((0, []), [])
     = (Some (wrapError ''upgrade to version 2: boom'' (errorString ''boom'')),
        [(1, ''a''), (2, ''bad''), (3, ''c'')], (1, [(1, ''a'')]),
        [OnCall (Event EventStart None None) None, CurrentVersionCall 0 None,
         OnCall (Event EventBeforeSync None None) None,
         OnCall (Event EventBeforeChange (Some (1, ''a'')) None) None,
         UpgradeCall (1, ''a'') None, SyncVersionCall 1 None,
         OnCall (Event EventAfterChange (Some (1, ''a'')) None) None,
         OnCall (Event EventBeforeChange (Some (2, ''bad'')) None) None,
         UpgradeCall (2, ''bad'') (Some (errorString ''boom'')),
         OnCall (Event EventErrorDuringChange (Some (2, ''bad'')) (Some (errorString ''boom''))) None])"
    by (simp add: struct_defs)
  have fails: "UpgradeCall (2, ''bad'') (Some (errorString ''boom''))
     \<in> set (snd (snd (snd (Sync insertionSort structVersion ?v 4 ((0, []), [])))))"
    by (simp add: run)
  from Sync_upgrade_fails [OF run, of "(2, ''bad'')" "errorString ''boom''"] fails
  obtain eventErr where
    "Some (wrapError ''upgrade to version 2: boom'' (errorString ''boom''))
       = Some (change_error ''upgrade to version '' (Number structVersion (2, ''bad'')) (errorString ''boom'') eventErr)"
    "read_number (drop (length ''upgrade to version '')
       (err_Error (change_error ''upgrade to version '' (Number structVersion (2, ''bad'')) (errorString ''boom'') eventErr)))
     = Number structVersion (2, ''bad'')"
    by (auto simp: run)
  then have "read_number (drop (length ''upgrade to version '')
        (err_Error (wrapError ''upgrade to version 2: boom'' (errorString ''boom'')))) = 2"
    by (simp add: structVersion_def)
  then show ?thesis using fails run structApplier_keeps_record [of "[(1, ''a''), (2, ''bad''), (3, ''c'')]"]
    by simp
qed

end
